theory Spec2Isabelle
  imports Complex_Main "HOL-Library.Word"
begin

unbundle bit_operations_syntax

section \<open>Data model of ring\_buffer.h\<close>

type_synonym u8 = "8 word"
type_synonym u32 = "32 word"
type_synonym u64 = "64 word"
type_synonym size_t = "64 word"

text \<open>The constants of ring\_buffer.h and ring\_buffer.c.\<close>

definition RING_BUFFER_DEFAULT_SIZE :: size_t where
  "RING_BUFFER_DEFAULT_SIZE = 64 * 1024 * 1024"

definition RING_BUFFER_MAX_MESSAGE_SIZE :: size_t where
  "RING_BUFFER_MAX_MESSAGE_SIZE = 16 * 1024 * 1024"

definition ARROW_IPC_MAGIC :: u32 where
  "ARROW_IPC_MAGIC = 0x41524157"

definition MESSAGE_ALIGNMENT :: size_t where
  "MESSAGE_ALIGNMENT = 8"

definition RING_BUFFER_MAGIC :: u32 where
  "RING_BUFFER_MAGIC = 0x52424652"

definition CRC32_POLYNOMIAL :: u32 where
  "CRC32_POLYNOMIAL = 0xEDB88320"

text \<open>\<open>sizeof(arrow_ipc_header_t)\<close>: the struct is packed, 4 + 4 + 8 + 4 + 4 bytes.\<close>

definition sizeof_header :: size_t where
  "sizeof_header = 24"

text \<open>
  The error codes of \<open>ring_buffer_error_t\<close>. ring\_buffer.c also returns the name
  \<open>RING_BUFFER_ERROR\<close> where \<open>safe_memcpy\<close> fails; the enum of ring\_buffer.h does not
  declare it, so it is a constructor of its own here.
\<close>

datatype ring_buffer_error_t =
    RING_BUFFER_SUCCESS
  | RING_BUFFER_ERROR_INVALID_PARAM
  | RING_BUFFER_ERROR_MEMORY
  | RING_BUFFER_ERROR_FULL
  | RING_BUFFER_ERROR_EMPTY
  | RING_BUFFER_ERROR_TOO_LARGE
  | RING_BUFFER_ERROR_CORRUPTED
  | RING_BUFFER_ERROR_BACKPRESSURE
  | RING_BUFFER_ERROR

text \<open>
  The values of type \<open>double\<close> that the code can produce: a finite double is the
  rational number it denotes; a quotient by zero is the infinity or not-a-number.
\<close>

datatype double = Finite rat | PosInf | NaN

text \<open>
  The \<open>buffer\<close> pointer of the descriptor: null, the failure value of \<open>mmap\<close>, or the
  address of a region, which is modelled by the bytes the region holds.
\<close>

datatype buffer_ptr = NULL_PTR | MAP_FAILED | Region "u8 list"

record arrow_ipc_header_t =
  h_magic :: u32
  h_length :: u32
  h_timestamp :: u64
  h_checksum :: u32
  h_reserved :: u32

record ring_buffer_stats_t =
  st_messages_written :: u64
  st_messages_read :: u64
  st_bytes_written :: u64
  st_bytes_read :: u64
  st_write_errors :: u64
  st_read_errors :: u64
  st_backpressure_events :: u64

record ring_buffer_t =
  buffer :: buffer_ptr
  size_rb :: size_t
  fd :: int
  write_pos :: size_t
  read_pos :: size_t
  commit_pos :: size_t
  is_full :: bool
  backpressure :: bool
  messages_written :: u64
  messages_read :: u64
  bytes_written :: u64
  bytes_read :: u64
  write_errors :: u64
  read_errors :: u64
  backpressure_events :: u64
  backpressure_threshold :: double
  magic :: u32

text \<open>
  \<open>ring_buffer_message_t\<close>: the \<open>data\<close> pointer of a message points into the arena and
  is the offset from the start of the region; \<open>None\<close> is a pointer that was never set.
\<close>

record ring_buffer_message_t =
  header :: arrow_ipc_header_t
  data :: "size_t option"
  data_size :: size_t

text \<open>A handle \<open>ring_buffer_t *\<close> is \<open>None\<close> when it is null.\<close>

section \<open>Arithmetic of type double\<close>

text \<open>The number of binary digits of a natural number.\<close>

fun bits :: "nat \<Rightarrow> nat" where
  "bits n = (if n = 0 then 0 else Suc (bits (n div 2)))"

declare bits.simps [simp del]

definition pow2 :: "int \<Rightarrow> rat" where
  "pow2 e = (if 0 \<le> e then 2 ^ nat e else 1 / 2 ^ nat (- e))"

text \<open>Rounding to the nearest integer, a tie to the even one.\<close>

definition round_half_even :: "rat \<Rightarrow> int" where
  "round_half_even m =
     (let f = \<lfloor>m\<rfloor>; frac = m - of_int f
      in if frac < 1 / 2 then f
         else if 1 / 2 < frac then f + 1
         else if even f then f else f + 1)"

text \<open>
  The exponent \<open>e\<close> with \<open>2 ^ e \<le> x < 2 ^ (e + 1)\<close> of a positive rational, from the
  digits of its numerator and denominator.
\<close>

definition exponent :: "rat \<Rightarrow> int" where
  "exponent x =
     (let (p, q) = quotient_of x;
          e = int (bits (nat p)) - int (bits (nat q))
      in if pow2 e \<le> x then e else e - 1)"

text \<open>
  Rounding of a rational to the nearest double (53 significant binary digits, ties to
  even), for magnitudes in the normal range of the format, which holds every quotient
  of two non-zero 64-bit integers.
\<close>

definition round_double :: "rat \<Rightarrow> rat" where
  "round_double x =
     (if x = 0 then 0
      else let a = \<bar>x\<bar>; ulp = pow2 (exponent a - 52)
           in sgn x * of_int (round_half_even (a / ulp)) * ulp)"

text \<open>The conversion \<open>(double)n\<close> of a \<open>size_t\<close>.\<close>

definition double_of_size_t :: "size_t \<Rightarrow> double" where
  "double_of_size_t n = Finite (round_double (of_nat (unat n)))"

text \<open>The division \<open>a / b\<close> of two doubles that are not negative.\<close>

fun double_div :: "double \<Rightarrow> double \<Rightarrow> double" where
  "double_div (Finite a) (Finite b) =
     (if b = 0 then (if a = 0 then NaN else PosInf) else Finite (round_double (a / b)))"
| "double_div NaN _ = NaN"
| "double_div _ NaN = NaN"
| "double_div PosInf PosInf = NaN"
| "double_div PosInf (Finite b) = PosInf"
| "double_div (Finite a) PosInf = Finite 0"

text \<open>The comparison \<open>a >= b\<close> of two doubles; it is false when either is not a number.\<close>

fun double_ge :: "double \<Rightarrow> double \<Rightarrow> bool" where
  "double_ge (Finite a) (Finite b) = (b \<le> a)"
| "double_ge NaN _ = False"
| "double_ge _ NaN = False"
| "double_ge PosInf _ = True"
| "double_ge (Finite a) PosInf = False"

text \<open>
  \<open>RING_BUFFER_BACKPRESSURE_THRESHOLD\<close>: the literal \<open>0.8\<close> is the double nearest to
  4/5, which is 7205759403792794 / 2^53.
\<close>

definition RING_BUFFER_BACKPRESSURE_THRESHOLD :: double where
  "RING_BUFFER_BACKPRESSURE_THRESHOLD = Finite (round_double (4 / 5))"

section \<open>Accessors\<close>

text \<open>The local \<open>used\<close> of \<open>ring_buffer_utilization\<close>.\<close>

definition utilization_used :: "ring_buffer_t \<Rightarrow> size_t" where
  "utilization_used rb =
     (if read_pos rb \<le> write_pos rb then write_pos rb - read_pos rb
      else size_rb rb - (read_pos rb - write_pos rb))"

definition ring_buffer_utilization :: "ring_buffer_t option \<Rightarrow> double" where
  "ring_buffer_utilization h =
     (case h of
        None \<Rightarrow> Finite 0
      | Some rb \<Rightarrow>
          double_div (double_of_size_t (utilization_used rb)) (double_of_size_t (size_rb rb)))"

definition ring_buffer_available_write :: "ring_buffer_t option \<Rightarrow> size_t" where
  "ring_buffer_available_write h =
     (case h of
        None \<Rightarrow> 0
      | Some rb \<Rightarrow>
          if read_pos rb \<le> write_pos rb
          then size_rb rb - (write_pos rb - read_pos rb) - 1
          else read_pos rb - write_pos rb - 1)"

definition ring_buffer_available_read :: "ring_buffer_t option \<Rightarrow> size_t" where
  "ring_buffer_available_read h =
     (case h of
        None \<Rightarrow> 0
      | Some rb \<Rightarrow>
          if read_pos rb \<le> commit_pos rb
          then commit_pos rb - read_pos rb
          else size_rb rb - (read_pos rb - commit_pos rb))"

definition ring_buffer_is_backpressure :: "ring_buffer_t option \<Rightarrow> bool" where
  "ring_buffer_is_backpressure h = (case h of None \<Rightarrow> False | Some rb \<Rightarrow> backpressure rb)"

text \<open>
  \<open>ring_buffer_get_stats\<close> writes through its second argument: the result is the
  contents of \<open>*stats\<close> after the call, \<open>None\<close> for a null \<open>stats\<close>.
\<close>

definition ring_buffer_get_stats ::
  "ring_buffer_t option \<Rightarrow> ring_buffer_stats_t option \<Rightarrow> ring_buffer_stats_t option" where
  "ring_buffer_get_stats h stats =
     (case (h, stats) of
        (Some rb, Some s) \<Rightarrow>
          Some (s\<lparr>st_messages_written := messages_written rb,
                  st_messages_read := messages_read rb,
                  st_bytes_written := bytes_written rb,
                  st_bytes_read := bytes_read rb,
                  st_write_errors := write_errors rb,
                  st_read_errors := read_errors rb,
                  st_backpressure_events := backpressure_events rb\<rparr>)
      | _ \<Rightarrow> stats)"

text \<open>\<open>ring_buffer_reset_stats\<close>: the result is the descriptor after the call.\<close>

definition ring_buffer_reset_stats :: "ring_buffer_t option \<Rightarrow> ring_buffer_t option" where
  "ring_buffer_reset_stats h =
     (case h of
        None \<Rightarrow> None
      | Some rb \<Rightarrow>
          Some (rb\<lparr>messages_written := 0, messages_read := 0, bytes_written := 0,
                   bytes_read := 0, write_errors := 0, read_errors := 0,
                   backpressure_events := 0\<rparr>))"

definition ring_buffer_validate :: "ring_buffer_t option \<Rightarrow> bool" where
  "ring_buffer_validate h =
     (case h of
        None \<Rightarrow> False
      | Some rb \<Rightarrow>
          if magic rb \<noteq> RING_BUFFER_MAGIC then False
          else if buffer rb = NULL_PTR \<or> buffer rb = MAP_FAILED then False
          else if size_rb rb = 0 \<or> size_rb rb AND (size_rb rb - 1) \<noteq> 0 then False
          else if size_rb rb \<le> write_pos rb \<or> size_rb rb \<le> read_pos rb \<or> size_rb rb \<le> commit_pos rb
          then False
          else True)"


section \<open>Helpers of ring\_buffer.c\<close>

definition align_size :: "size_t \<Rightarrow> size_t" where
  "align_size sz = (sz + MESSAGE_ALIGNMENT - 1) AND NOT (MESSAGE_ALIGNMENT - 1)"

definition total_message_size :: "size_t \<Rightarrow> size_t" where
  "total_message_size n = align_size (sizeof_header + n)"

text \<open>
  Memory. A byte object is the list of its bytes. \<open>mem_write obj off bs\<close> stores \<open>bs\<close>
  at offset \<open>off\<close>; the object keeps its length, and bytes that would fall past its end
  (undefined behaviour in C) are dropped. \<open>mem_read obj off n\<close> gives the \<open>n\<close> bytes at
  offset \<open>off\<close>, fewer where the object ends before.
\<close>

definition mem_write :: "u8 list \<Rightarrow> nat \<Rightarrow> u8 list \<Rightarrow> u8 list" where
  "mem_write obj off bs =
     take off obj @ take (length obj - off) bs @ drop (off + length bs) obj"

definition mem_read :: "u8 list \<Rightarrow> nat \<Rightarrow> nat \<Rightarrow> u8 list" where
  "mem_read obj off n = take n (drop off obj)"

text \<open>
  \<open>safe_memcpy(dest, src, n, dest_size)\<close>. A destination pointer is \<open>None\<close> when null,
  else the object it points into and the offset; a source pointer is \<open>None\<close> when
  null, else the bytes that start at it. The result is \<open>None\<close> for the return value
  -1, where nothing is copied, and the destination object after the copy for the
  return value 0.
\<close>

definition safe_memcpy ::
  "(u8 list \<times> nat) option \<Rightarrow> u8 list option \<Rightarrow> size_t \<Rightarrow> size_t \<Rightarrow> u8 list option" where
  "safe_memcpy dest src n dest_size =
     (case (dest, src) of
        (Some (obj, off), Some bs) \<Rightarrow>
          if dest_size < n then None else Some (mem_write obj off (take (unat n) bs))
      | _ \<Rightarrow> None)"

text \<open>\<open>p + k\<close> on a source pointer.\<close>

definition ptr_add :: "u8 list option \<Rightarrow> size_t \<Rightarrow> u8 list option" where
  "ptr_add p k = map_option (drop (unat k)) p"

text \<open>
  \<open>buffer + pos\<close> as a destination and \<open>buffer\<close> as a source. Both are used after
  \<open>ring_buffer_validate\<close> only, which leaves a region as the one possible value.
\<close>

fun buffer_at :: "buffer_ptr \<Rightarrow> size_t \<Rightarrow> (u8 list \<times> nat) option" where
  "buffer_at (Region m) pos = Some (m, unat pos)"
| "buffer_at _ pos = None"

fun buffer_src :: "buffer_ptr \<Rightarrow> u8 list option" where
  "buffer_src (Region m) = Some m"
| "buffer_src _ = None"

text \<open>The bytes a pointer into the region can reach; none for the other two values.\<close>

fun region_bytes :: "buffer_ptr \<Rightarrow> u8 list" where
  "region_bytes (Region m) = m"
| "region_bytes _ = []"

subsection \<open>The frame header in memory\<close>

text \<open>
  The header is a packed struct copied byte by byte in host order, which is little-endian
  on the targets of the code (x86-64 and arm64).
\<close>

fun le_bytes :: "nat \<Rightarrow> 'a::len word \<Rightarrow> u8 list" where
  "le_bytes 0 w = []"
| "le_bytes (Suc n) w = ucast w # le_bytes n (drop_bit 8 w)"

fun le_word :: "u8 list \<Rightarrow> 'a::len word" where
  "le_word [] = 0"
| "le_word (b # bs) = ucast b OR push_bit 8 (le_word bs)"

definition header_bytes :: "arrow_ipc_header_t \<Rightarrow> u8 list" where
  "header_bytes h =
     le_bytes 4 (h_magic h) @ le_bytes 4 (h_length h) @ le_bytes 8 (h_timestamp h) @
     le_bytes 4 (h_checksum h) @ le_bytes 4 (h_reserved h)"

definition header_of_bytes :: "u8 list \<Rightarrow> arrow_ipc_header_t" where
  "header_of_bytes bs =
     \<lparr>h_magic = le_word (mem_read bs 0 4),
      h_length = le_word (mem_read bs 4 4),
      h_timestamp = le_word (mem_read bs 8 8),
      h_checksum = le_word (mem_read bs 16 4),
      h_reserved = le_word (mem_read bs 20 4)\<rparr>"

subsection \<open>CRC-32\<close>

text \<open>The body of the inner loop of \<open>init_crc32_table\<close>.\<close>

definition crc_shift :: "u32 \<Rightarrow> u32" where
  "crc_shift crc =
     (if crc AND 1 \<noteq> 0 then drop_bit 1 crc XOR CRC32_POLYNOMIAL else drop_bit 1 crc)"

text \<open>
  \<open>crc32_table\<close> as \<open>init_crc32_table\<close> fills it. \<open>ring_buffer_crc32\<close> and
  \<open>ring_buffer_create\<close> run the initialisation before the first use, so the table read
  is always this one.
\<close>

definition crc32_table :: "u32 list" where
  "crc32_table = map (\<lambda>i. (crc_shift ^^ 8) (of_nat i)) [0..<256]"

definition crc32_update :: "u8 \<Rightarrow> u32 \<Rightarrow> u32" where
  "crc32_update b crc = crc32_table ! unat ((crc XOR ucast b) AND 0xFF) XOR drop_bit 8 crc"

text \<open>\<open>ring_buffer_crc32(data, size)\<close>, \<open>data\<close> being the bytes at the pointer.\<close>

definition ring_buffer_crc32 :: "u8 list \<Rightarrow> size_t \<Rightarrow> u32" where
  "ring_buffer_crc32 bytes sz =
     fold crc32_update (take (unat sz) bytes) 0xFFFFFFFF XOR 0xFFFFFFFF"

subsection \<open>Rounding the capacity\<close>

definition ring_buffer_next_power_of_2 :: "size_t \<Rightarrow> size_t" where
  "ring_buffer_next_power_of_2 n =
     (if n = 0 then 1
      else let n = n - 1;
               n = n OR drop_bit 1 n;
               n = n OR drop_bit 2 n;
               n = n OR drop_bit 4 n;
               n = n OR drop_bit 8 n;
               n = n OR drop_bit 16 n;
               n = n OR drop_bit 32 n
           in n + 1)"

section \<open>Lifecycle\<close>

text \<open>
  What the allocator answers is an input of \<open>ring_buffer_create\<close>: whether \<open>calloc\<close>
  of the descriptor, \<open>mmap\<close> of the region and the fallback \<open>malloc\<close> succeed. An
  anonymous mapping is zero-filled and the fallback region is cleared by \<open>memset\<close>.
\<close>

record allocator =
  calloc_ok :: bool
  mmap_ok :: bool
  malloc_ok :: bool

text \<open>The descriptor and the region as \<open>ring_buffer_create\<close> initialises them.\<close>

definition new_descriptor :: "size_t \<Rightarrow> ring_buffer_t" where
  "new_descriptor sz =
     \<lparr>buffer = Region (replicate (unat sz) 0),
      size_rb = sz,
      fd = - 1,
      write_pos = 0, read_pos = 0, commit_pos = 0,
      is_full = False, backpressure = False,
      messages_written = 0, messages_read = 0,
      bytes_written = 0, bytes_read = 0,
      write_errors = 0, read_errors = 0,
      backpressure_events = 0,
      backpressure_threshold = RING_BUFFER_BACKPRESSURE_THRESHOLD,
      magic = RING_BUFFER_MAGIC\<rparr>"

definition ring_buffer_create :: "allocator \<Rightarrow> size_t \<Rightarrow> ring_buffer_t option" where
  "ring_buffer_create env requested =
     (let sz = ring_buffer_next_power_of_2
                 (if requested = 0 then RING_BUFFER_DEFAULT_SIZE else requested)
      in if \<not> calloc_ok env then None
         else if \<not> mmap_ok env \<and> \<not> malloc_ok env then None
         else Some (new_descriptor sz))"








section \<open>Writing a frame\<close>

text \<open>
  The copy of \<open>n\<close> bytes from \<open>src\<close> to position \<open>pos\<close> of the arena, in one piece or
  split at the end of the arena, as \<open>ring_buffer_write\<close> does it for the header and for
  the payload. The result says whether every \<open>safe_memcpy\<close> returned 0.
\<close>

definition arena_copy_in ::
  "ring_buffer_t \<Rightarrow> size_t \<Rightarrow> u8 list option \<Rightarrow> size_t \<Rightarrow> bool \<times> ring_buffer_t" where
  "arena_copy_in rb pos src n =
     (if pos + n \<le> size_rb rb
      then (case safe_memcpy (buffer_at (buffer rb) pos) src n (size_rb rb - pos) of
              None \<Rightarrow> (False, rb)
            | Some m \<Rightarrow> (True, rb\<lparr>buffer := Region m\<rparr>))
      else let first_part = size_rb rb - pos
           in (case safe_memcpy (buffer_at (buffer rb) pos) src first_part first_part of
                 None \<Rightarrow> (False, rb)
               | Some m \<Rightarrow>
                   (case safe_memcpy (buffer_at (Region m) 0) (ptr_add src first_part)
                           (n - first_part) (size_rb rb) of
                      None \<Rightarrow> (False, rb\<lparr>buffer := Region m\<rparr>)
                    | Some m' \<Rightarrow> (True, rb\<lparr>buffer := Region m'\<rparr>))))"

text \<open>
  The three phases of \<open>ring_buffer_write\<close> after the null checks. The reservation
  (validation, size check, backpressure check, free-space check and the compare-and-swap
  of \<open>write_pos\<close>) gives the error to return or the snapshot and the new write
  position. With no other thread between the load of \<open>write_pos\<close> and the
  compare-and-swap, the exchange finds the value it loaded; a spurious failure of the
  weak exchange only repeats the loop on the same values.
\<close>

definition write_reserve ::
  "ring_buffer_t \<Rightarrow> size_t \<Rightarrow>
   (ring_buffer_error_t \<times> ring_buffer_t) + (ring_buffer_t \<times> size_t \<times> size_t)" where
  "write_reserve rb sz =
     (if \<not> ring_buffer_validate (Some rb)
      then Inl (RING_BUFFER_ERROR_CORRUPTED, rb\<lparr>write_errors := write_errors rb + 1\<rparr>)
      else if RING_BUFFER_MAX_MESSAGE_SIZE < sz
      then Inl (RING_BUFFER_ERROR_TOO_LARGE, rb\<lparr>write_errors := write_errors rb + 1\<rparr>)
      else if double_ge (ring_buffer_utilization (Some rb)) (backpressure_threshold rb)
      then Inl (RING_BUFFER_ERROR_BACKPRESSURE,
                rb\<lparr>backpressure := True, backpressure_events := backpressure_events rb + 1\<rparr>)
      else let rb = rb\<lparr>backpressure := False\<rparr>;
               msg_size = total_message_size sz
           in if ring_buffer_available_write (Some rb) < msg_size
              then Inl (RING_BUFFER_ERROR_FULL, rb\<lparr>write_errors := write_errors rb + 1\<rparr>)
              else let wp = write_pos rb;
                       new_write_pos = (wp + msg_size) AND (size_rb rb - 1)
                   in Inr (rb\<lparr>write_pos := new_write_pos\<rparr>, wp, new_write_pos))"

text \<open>The header and the payload are copied to the reserved range.\<close>

definition write_frame ::
  "ring_buffer_t \<Rightarrow> size_t \<Rightarrow> u8 list \<Rightarrow> size_t \<Rightarrow> u64 \<Rightarrow> bool \<times> ring_buffer_t" where
  "write_frame rb wp bytes sz now =
     (let hdr = \<lparr>h_magic = ARROW_IPC_MAGIC,
                 h_length = ucast sz,
                 h_timestamp = now,
                 h_checksum = ring_buffer_crc32 bytes sz,
                 h_reserved = 0\<rparr>
      in case arena_copy_in rb wp (Some (header_bytes hdr)) sizeof_header of
           (False, rb) \<Rightarrow> (False, rb)
         | (True, rb) \<Rightarrow>
             let data_start = (wp + sizeof_header) AND (size_rb rb - 1)
             in arena_copy_in rb data_start (Some bytes) sz)"

text \<open>The commit and the statistics.\<close>

definition write_commit :: "ring_buffer_t \<Rightarrow> size_t \<Rightarrow> size_t \<Rightarrow> ring_buffer_t" where
  "write_commit rb new_write_pos sz =
     rb\<lparr>commit_pos := new_write_pos,
        messages_written := messages_written rb + 1,
        bytes_written := bytes_written rb + sz\<rparr>"

text \<open>
  \<open>ring_buffer_write(rb, data, size)\<close>; \<open>now\<close> is what \<open>ring_buffer_timestamp\<close> returns
  during the call. The result is the return value and the descriptor after the call.
\<close>

definition ring_buffer_write ::
  "ring_buffer_t option \<Rightarrow> u8 list option \<Rightarrow> size_t \<Rightarrow> u64 \<Rightarrow>
   ring_buffer_error_t \<times> ring_buffer_t option" where
  "ring_buffer_write h data_ptr sz now =
     (case (h, data_ptr) of
        (Some rb, Some bytes) \<Rightarrow>
          if sz = 0 then (RING_BUFFER_ERROR_INVALID_PARAM, h)
          else (case write_reserve rb sz of
                  Inl (e, rb) \<Rightarrow> (e, Some rb)
                | Inr (rb, wp, new_write_pos) \<Rightarrow>
                    (case write_frame rb wp bytes sz now of
                       (False, rb) \<Rightarrow> (RING_BUFFER_ERROR, Some rb)
                     | (True, rb) \<Rightarrow>
                         (RING_BUFFER_SUCCESS, Some (write_commit rb new_write_pos sz))))
      | _ \<Rightarrow> (RING_BUFFER_ERROR_INVALID_PARAM, h))"

section \<open>Reading a frame\<close>

text \<open>
  The header is assembled in the local \<open>header\<close>, 24 bytes that the copies overwrite;
  \<open>None\<close> when a \<open>safe_memcpy\<close> returned -1.
\<close>

definition read_header :: "ring_buffer_t \<Rightarrow> size_t \<Rightarrow> u8 list option" where
  "read_header rb rp =
     (let local = replicate 24 0;
          buf = buffer_src (buffer rb)
      in if rp + sizeof_header \<le> size_rb rb
         then safe_memcpy (Some (local, 0)) (ptr_add buf rp) sizeof_header sizeof_header
         else let first_part = size_rb rb - rp
              in (case safe_memcpy (Some (local, 0)) (ptr_add buf rp) first_part sizeof_header of
                    None \<Rightarrow> None
                  | Some local \<Rightarrow>
                      safe_memcpy (Some (local, unat first_part)) buf
                        (sizeof_header - first_part) (sizeof_header - first_part)))"

text \<open>
  \<open>ring_buffer_read(rb, msg)\<close>: the return value, the descriptor after the call and
  the contents of \<open>*msg\<close> after the call.
\<close>

definition ring_buffer_read ::
  "ring_buffer_t option \<Rightarrow> ring_buffer_message_t option \<Rightarrow>
   ring_buffer_error_t \<times> ring_buffer_t option \<times> ring_buffer_message_t option" where
  "ring_buffer_read h msg_ptr =
     (case (h, msg_ptr) of
        (Some rb, Some msg) \<Rightarrow>
          if \<not> ring_buffer_validate h
          then (RING_BUFFER_ERROR_CORRUPTED, Some (rb\<lparr>read_errors := read_errors rb + 1\<rparr>), msg_ptr)
          else if ring_buffer_available_read h < sizeof_header
          then (RING_BUFFER_ERROR_EMPTY, h, msg_ptr)
          else
            let rp = read_pos rb
            in (case read_header rb rp of
                  None \<Rightarrow> (RING_BUFFER_ERROR, h, msg_ptr)
                | Some local \<Rightarrow>
                    let hdr = header_of_bytes local
                    in if h_magic hdr \<noteq> ARROW_IPC_MAGIC
                       then (RING_BUFFER_ERROR_CORRUPTED,
                             Some (rb\<lparr>read_errors := read_errors rb + 1\<rparr>), msg_ptr)
                       else if RING_BUFFER_MAX_MESSAGE_SIZE < ucast (h_length hdr)
                       then (RING_BUFFER_ERROR_CORRUPTED,
                             Some (rb\<lparr>read_errors := read_errors rb + 1\<rparr>), msg_ptr)
                       else
                         let msg_size = total_message_size (ucast (h_length hdr))
                         in if ring_buffer_available_read h < msg_size
                            then (RING_BUFFER_ERROR_EMPTY, h, msg_ptr)
                            else
                              let data_start = (rp + sizeof_header) AND (size_rb rb - 1)
                              in if data_start + ucast (h_length hdr) \<le> size_rb rb
                                 then
                                   let msg = msg\<lparr>data := Some data_start,
                                                  data_size := ucast (h_length hdr)\<rparr>;
                                       checksum =
                                         ring_buffer_crc32
                                           (drop (unat data_start) (region_bytes (buffer rb)))
                                           (ucast (h_length hdr))
                                   in if checksum \<noteq> h_checksum hdr
                                      then (RING_BUFFER_ERROR_CORRUPTED,
                                            Some (rb\<lparr>read_errors := read_errors rb + 1\<rparr>),
                                            Some msg)
                                      else (RING_BUFFER_SUCCESS,
                                            Some (rb\<lparr>read_pos := (rp + msg_size) AND (size_rb rb - 1),
                                                      messages_read := messages_read rb + 1,
                                                      bytes_read := bytes_read rb + ucast (h_length hdr)\<rparr>),
                                            Some (msg\<lparr>header := hdr\<rparr>))
                                 else (RING_BUFFER_ERROR_CORRUPTED,
                                       Some (rb\<lparr>read_errors := read_errors rb + 1\<rparr>), msg_ptr))
      | _ \<Rightarrow> (RING_BUFFER_ERROR_INVALID_PARAM, h, msg_ptr))"

text \<open>The bytes a message's \<open>data\<close> pointer and \<open>data_size\<close> designate in the arena.\<close>

definition msg_payload :: "ring_buffer_t \<Rightarrow> ring_buffer_message_t \<Rightarrow> u8 list" where
  "msg_payload rb msg =
     (case data msg of
        Some off \<Rightarrow> mem_read (region_bytes (buffer rb)) (unat off) (unat (data_size msg))
      | None \<Rightarrow> [])"

text \<open>A message structure as a caller declares it before its first read.\<close>

definition blank_message :: ring_buffer_message_t where
  "blank_message =
     \<lparr>header = \<lparr>h_magic = 0, h_length = 0, h_timestamp = 0, h_checksum = 0, h_reserved = 0\<rparr>,
      data = None, data_size = 0\<rparr>"

section \<open>Producers that run concurrently\<close>

text \<open>
  Several threads inside \<open>ring_buffer_write\<close> on one descriptor, as an interleaving of
  the three phases of the function. A producer is about to call the function with a
  payload, a size and the clock value it will read; or it has swapped \<open>write_pos\<close>
  from its snapshot to the new write position and has not copied yet; or it has copied
  its frame and not committed yet; or it has returned. Each phase is one step, taken on
  the descriptor as the other threads have left it. (The real function can be
  interrupted inside a phase as well; every run of this model is a run of the code in
  which that does not happen.)
\<close>

datatype producer =
    Ready "u8 list" size_t u64
  | Reserved "u8 list" size_t u64 size_t size_t
  | Copied size_t size_t
  | Returned ring_buffer_error_t

fun producer_step :: "ring_buffer_t \<Rightarrow> producer \<Rightarrow> ring_buffer_t \<times> producer" where
  "producer_step rb (Ready bytes sz now) =
     (if sz = 0 then (rb, Returned RING_BUFFER_ERROR_INVALID_PARAM)
      else case write_reserve rb sz of
             Inl (e, rb) \<Rightarrow> (rb, Returned e)
           | Inr (rb, wp, new_write_pos) \<Rightarrow> (rb, Reserved bytes sz now wp new_write_pos))"
| "producer_step rb (Reserved bytes sz now wp new_write_pos) =
     (case write_frame rb wp bytes sz now of
        (False, rb) \<Rightarrow> (rb, Returned RING_BUFFER_ERROR)
      | (True, rb) \<Rightarrow> (rb, Copied new_write_pos sz))"
| "producer_step rb (Copied new_write_pos sz) =
     (write_commit rb new_write_pos sz, Returned RING_BUFFER_SUCCESS)"
| "producer_step rb (Returned e) = (rb, Returned e)"

text \<open>Producer \<open>i\<close> takes its next step; a schedule is the list of who moves.\<close>

definition step :: "nat \<Rightarrow> ring_buffer_t \<times> producer list \<Rightarrow> ring_buffer_t \<times> producer list" where
  "step i st =
     (case st of
        (rb, ps) \<Rightarrow>
          if i < length ps
          then (case producer_step rb (ps ! i) of (rb', p') \<Rightarrow> (rb', ps[i := p']))
          else (rb, ps))"

definition run :: "nat list \<Rightarrow> ring_buffer_t \<times> producer list \<Rightarrow> ring_buffer_t \<times> producer list" where
  "run schedule st = fold step schedule st"

section \<open>The reference CRC-32\<close>

text \<open>
  The reference against which \<open>ring_buffer_crc32\<close> is compared, written from the
  specification and not from the code: CRC-32 of IEEE 802.3 in its reflected form,
  one bit at a time. The register starts at \<open>0xFFFFFFFF\<close>; each byte is added to its
  low end and the register is shifted to the right eight times, the reflected
  polynomial \<open>0xEDB88320\<close> being added whenever a one is shifted out; the result is
  the register with every bit flipped.
\<close>

definition crc32_bit_step :: "u32 \<Rightarrow> u32" where
  "crc32_bit_step c = (if bit c 0 then drop_bit 1 c XOR 0xEDB88320 else drop_bit 1 c)"

definition crc32_reference :: "u8 list \<Rightarrow> u32" where
  "crc32_reference bs =
     fold (\<lambda>b c. (crc32_bit_step ^^ 8) (c XOR ucast b)) bs 0xFFFFFFFF XOR 0xFFFFFFFF"

section \<open>Properties\<close>

subsection \<open>Rounding to double is exact on small dyadic fractions\<close>

lemma bits_bounds: "0 < n \<Longrightarrow> 2 ^ (bits n - 1) \<le> n \<and> n < 2 ^ bits n"
proof (induction n rule: bits.induct)
  case (1 n)
  show ?case
  proof (cases "n div 2 = 0")
    case True
    with 1 have "n = 1" by (simp add: div_eq_0_iff) 
    then show ?thesis by (simp add: bits.simps)
  next
    case False
    then have pos: "0 < n div 2" by simp
    from 1 have n0: "n \<noteq> 0" by simp
    from "1.IH"[OF n0 pos] have ih: "2 ^ (bits (n div 2) - 1) \<le> n div 2" "n div 2 < 2 ^ bits (n div 2)" by auto
    have b: "bits n = Suc (bits (n div 2))" using n0 by (subst bits.simps) simp
    have bp: "0 < bits (n div 2)" using pos by (subst bits.simps) simp
    then obtain m where m: "bits (n div 2) = Suc m" by (cases "bits (n div 2)") auto
    from ih show ?thesis unfolding b m by simp linarith
  qed
qed

lemma bits_pos: "0 < n \<Longrightarrow> 0 < bits n"
  by (subst bits.simps) simp

lemma pow2_powi: "pow2 e = 2 powi e"
  by (simp add: pow2_def power_int_def inverse_eq_divide power_one_over)

lemma pow2_pos: "0 < pow2 e"
  by (simp add: pow2_powi)

lemma pow2_add: "pow2 (a + b) = pow2 a * pow2 b"
  by (simp add: pow2_powi power_int_add)

lemma pow2_nat: "pow2 (int n) = 2 ^ n"
  by (simp add: pow2_def)

lemma pow2_neg_nat: "pow2 (- int n) = 1 / 2 ^ n"
  by (simp add: pow2_powi power_int_minus inverse_eq_divide)

lemma pow2_less_iff: "pow2 a < pow2 b \<longleftrightarrow> a < b"
proof
  assume "pow2 a < pow2 b"
  show "a < b"
  proof (rule ccontr)
    assume "\<not> a < b"
    then have "b \<le> a" by simp
    then have "pow2 b \<le> pow2 a" unfolding pow2_powi by (intro power_int_increasing) auto
    with \<open>pow2 a < pow2 b\<close> show False by simp
  qed
next
  assume "a < b"
  then show "pow2 a < pow2 b" unfolding pow2_powi by (intro power_int_strict_increasing) auto
qed

lemma exponent_bounds:
  assumes "0 < x"
  shows "pow2 (exponent x) \<le> x \<and> x < pow2 (exponent x + 1)"
proof -
  obtain p q where pq: "quotient_of x = (p, q)" by (cases "quotient_of x")
  then have q: "0 < q" and x: "x = of_int p / of_int q"
    using quotient_of_denom_pos quotient_of_div by auto
  with assms have p: "0 < p" by (simp add: zero_less_divide_iff)
  define P where "P = nat p"
  define Q where "Q = nat q"
  have P: "0 < P" "p = int P" and Q: "0 < Q" "q = int Q" using p q by (auto simp: P_def Q_def)
  define e where "e = int (bits P) - int (bits Q)"
  have xPQ: "x = of_nat P / of_nat Q" using x P Q by simp
  from bits_bounds[OF P(1)] bits_bounds[OF Q(1)]
  have bP: "2 ^ (bits P - 1) \<le> P" "P < 2 ^ bits P" and bQ: "2 ^ (bits Q - 1) \<le> Q" "Q < 2 ^ bits Q"
    by auto
  have Qr: "(0::rat) < of_nat Q" using Q by simp
  have "x < pow2 (e + 1)"
  proof -
    have "(of_nat P :: rat) < 2 ^ bits P" using bP(2) by (metis of_nat_less_iff of_nat_numeral of_nat_power)
    moreover have "(2::rat) ^ (bits Q - 1) \<le> of_nat Q" using bQ(1) by (metis of_nat_le_iff of_nat_numeral of_nat_power)
    ultimately have "of_nat P * (2::rat) ^ (bits Q - 1) < 2 ^ bits P * of_nat Q"
      by (intro mult_less_le_imp_less) auto
    then have "x * 2 ^ (bits Q - 1) < 2 ^ bits P" using Qr by (simp add: xPQ field_simps)
    then have "x * pow2 (int (bits Q - 1)) < pow2 (int (bits P))" by (simp add: pow2_nat)
    moreover have "pow2 (int (bits P)) = pow2 (e + 1) * pow2 (int (bits Q - 1))"
      unfolding pow2_add[symmetric] e_def using bits_pos[OF Q(1)] by (simp add: of_nat_diff)
    ultimately show ?thesis using pow2_pos[of "int (bits Q - 1)"] by simp
  qed
  moreover have "pow2 (e - 1) \<le> x"
  proof -
    have "(of_nat Q :: rat) \<le> 2 ^ bits Q" using bQ(2) by (metis less_imp_le of_nat_le_iff of_nat_numeral of_nat_power)
    moreover have "(2::rat) ^ (bits P - 1) \<le> of_nat P" using bP(1) by (metis of_nat_le_iff of_nat_numeral of_nat_power)
    ultimately have "(2::rat) ^ (bits P - 1) * of_nat Q \<le> of_nat P * 2 ^ bits Q"
      by (intro mult_mono) auto
    then have "2 ^ (bits P - 1) \<le> x * 2 ^ bits Q" using Qr by (simp add: xPQ field_simps)
    then have "pow2 (int (bits P - 1)) \<le> x * pow2 (int (bits Q))" by (simp add: pow2_nat)
    moreover have "pow2 (int (bits P - 1)) = pow2 (e - 1) * pow2 (int (bits Q))"
      unfolding pow2_add[symmetric] e_def using bits_pos[OF P(1)] by (simp add: of_nat_diff)
    ultimately show ?thesis using pow2_pos[of "int (bits Q)"] by simp
  qed
  moreover have "exponent x = (if pow2 e \<le> x then e else e - 1)"
    by (simp add: exponent_def pq e_def P_def Q_def)
  ultimately show ?thesis by (auto simp: not_le)
qed

lemma round_half_even_int: "round_half_even (of_int z) = z"
  by (simp add: round_half_even_def)

lemma round_double_exact:
  assumes "n < 2 ^ 53"
  shows "round_double (of_nat n / 2 ^ k) = of_nat n / 2 ^ k"
proof (cases "n = 0")
  case True
  then show ?thesis by (simp add: round_double_def)
next
  case False
  define x :: rat where "x = of_nat n / 2 ^ k"
  have xpos: "0 < x" using False by (simp add: x_def)
  define E where "E = exponent x"
  from exponent_bounds[OF xpos] have lo: "pow2 E \<le> x" by (simp add: E_def)
  have "(of_nat n :: rat) < 2 ^ 53" using assms by (metis of_nat_less_iff of_nat_numeral of_nat_power)
  then have "x < 2 ^ 53 / 2 ^ k" by (simp add: x_def divide_strict_right_mono)
  also have "\<dots> = pow2 (53 - int k)"
    using pow2_add[of 53 "- int k"] pow2_nat[of 53] by (simp add: pow2_neg_nat)
  finally have "pow2 E < pow2 (53 - int k)" using lo by simp
  then have Elt: "E < 53 - int k" by (simp add: pow2_less_iff)
  define j where "j = nat (52 - E - int k)"
  have j: "int j = 52 - E - int k" using Elt by (simp add: j_def)
  define z where "z = int n * 2 ^ j"
  have "x / pow2 (E - 52) = of_nat n * pow2 (- int k) * pow2 (52 - E)"
    using pow2_add[of "E - 52" "52 - E"] pow2_pos[of "E - 52"]
    by (simp add: x_def pow2_neg_nat field_simps pow2_def)
  also have "\<dots> = of_nat n * pow2 (int j)" by (simp add: j mult.assoc pow2_add[symmetric])
  also have "\<dots> = of_int z" by (simp add: pow2_nat z_def)
  finally have m: "x / pow2 (E - 52) = of_int z" .
  have "round_double x = of_int z * pow2 (E - 52)"
    using xpos by (simp add: round_double_def Let_def E_def[symmetric] m round_half_even_int)
  also have "\<dots> = x" using m pow2_pos[of "E - 52"] by (simp add: field_simps)
  finally show ?thesis by (simp add: x_def)
qed


lemma threshold_value: "round_double (4 / 5) = 7205759403792794 / 2 ^ 53"
  by code_simp

subsection \<open>Occupancy\<close>

lemma used_uint:
  assumes "write_pos rb < size_rb rb" "read_pos rb < size_rb rb"
  shows "uint (utilization_used rb) = (uint (write_pos rb) - uint (read_pos rb)) mod uint (size_rb rb)"
proof -
  have w: "uint (write_pos rb) < uint (size_rb rb)" and r: "uint (read_pos rb) < uint (size_rb rb)"
    using assms by (simp_all add: word_less_def)
  have nn: "0 \<le> uint (write_pos rb)" "0 \<le> uint (read_pos rb)" by simp_all
  show ?thesis
  proof (cases "read_pos rb \<le> write_pos rb")
    case True
    then have le: "uint (read_pos rb) \<le> uint (write_pos rb)" by (simp add: word_le_def)
    then have "uint (utilization_used rb) = uint (write_pos rb) - uint (read_pos rb)"
      using True by (simp add: utilization_used_def uint_sub_lem[THEN iffD1])
    moreover have "(uint (write_pos rb) - uint (read_pos rb)) mod uint (size_rb rb) = uint (write_pos rb) - uint (read_pos rb)"
      by (rule mod_pos_pos_trivial) (use le w nn in linarith)+
    ultimately show ?thesis by simp
  next
    case False
    then have lt: "uint (write_pos rb) < uint (read_pos rb)" by (simp add: word_le_def not_le)
    then have 1: "uint (read_pos rb - write_pos rb) = uint (read_pos rb) - uint (write_pos rb)"
      by (simp add: uint_sub_lem[THEN iffD1])
    have "uint (read_pos rb - write_pos rb) \<le> uint (size_rb rb)" using 1 r nn by linarith
    then have "uint (size_rb rb - (read_pos rb - write_pos rb)) = uint (size_rb rb) - uint (read_pos rb - write_pos rb)"
      by (rule uint_sub_lem[THEN iffD1])
    then have "uint (size_rb rb - (read_pos rb - write_pos rb)) = uint (size_rb rb) - (uint (read_pos rb) - uint (write_pos rb))"
      using 1 by simp
    then have "uint (utilization_used rb) = uint (write_pos rb) - uint (read_pos rb) + uint (size_rb rb)"
      using False by (simp add: utilization_used_def)
    moreover have "(uint (write_pos rb) - uint (read_pos rb) + uint (size_rb rb)) mod uint (size_rb rb) = uint (write_pos rb) - uint (read_pos rb) + uint (size_rb rb)"
      by (rule mod_pos_pos_trivial) (use lt r w nn in linarith)+
    ultimately show ?thesis by simp
  qed
qed

lemma free_unat:
  assumes "write_pos rb < size_rb rb" "read_pos rb < size_rb rb"
  shows "unat (ring_buffer_available_write (Some rb)) = unat (size_rb rb) - 1 - unat (utilization_used rb)"
  using assms unfolding ring_buffer_available_write_def utilization_used_def
  apply (simp split: if_splits)
  apply unat_arith
  done

subsection \<open>Accessors on a null handle\<close>

text \<open>
  C10. On a null handle \<open>ring_buffer_utilization\<close> returns 0.0,
  \<open>ring_buffer_available_write\<close> and \<open>ring_buffer_available_read\<close> return 0,
  \<open>ring_buffer_is_backpressure\<close> and \<open>ring_buffer_validate\<close> return false, and
  \<open>ring_buffer_get_stats\<close> and \<open>ring_buffer_reset_stats\<close> return with nothing written:
  the statistics structure and the (null) handle are as before.
\<close>

theorem null_handle_accessors:
  "ring_buffer_utilization None = Finite 0 \<and>
   ring_buffer_available_write None = 0 \<and>
   ring_buffer_available_read None = 0 \<and>
   \<not> ring_buffer_is_backpressure None \<and>
   \<not> ring_buffer_validate None \<and>
   ring_buffer_get_stats None stats = stats \<and>
   ring_buffer_reset_stats None = None"
  by (simp add: ring_buffer_utilization_def ring_buffer_available_write_def
      ring_buffer_available_read_def ring_buffer_is_backpressure_def
      ring_buffer_validate_def ring_buffer_get_stats_def ring_buffer_reset_stats_def)

subsection \<open>Rounding the capacity to a power of two\<close>

lemma smear_step:
  fixes x y :: "64 word"
  assumes y: "\<And>i. bit y i \<longleftrightarrow> (\<exists>j. i \<le> j \<and> j \<le> i + d \<and> bit x j)"
    and s: "s \<le> d + 1"
  shows "bit (y OR drop_bit s y) i \<longleftrightarrow> (\<exists>j. i \<le> j \<and> j \<le> i + (d + s) \<and> bit x j)"
proof
  assume "bit (y OR drop_bit s y) i"
  then consider "bit y i" | "bit y (s + i)" by (auto simp: bit_or_iff bit_drop_bit_eq)
  then show "\<exists>j. i \<le> j \<and> j \<le> i + (d + s) \<and> bit x j"
  proof cases
    case 1
    then obtain j where "i \<le> j" "j \<le> i + d" "bit x j" using y by blast
    then show ?thesis by (intro exI[of _ j]) simp
  next
    case 2
    then obtain j where "s + i \<le> j" "j \<le> s + i + d" "bit x j" using y by blast
    then show ?thesis by (intro exI[of _ j]) simp
  qed
next
  assume "\<exists>j. i \<le> j \<and> j \<le> i + (d + s) \<and> bit x j"
  then obtain j where j: "i \<le> j" "j \<le> i + (d + s)" "bit x j" by blast
  show "bit (y OR drop_bit s y) i"
  proof (cases "j \<le> i + d")
    case True
    with j have "bit y i" using y by blast
    then show ?thesis by (simp add: bit_or_iff)
  next
    case False
    with j s have "s + i \<le> j" "j \<le> s + i + d" by simp_all
    with j have "bit y (s + i)" using y by blast
    moreover have "i < 64" using j(1,3) bit_imp_le_length[of x j] by simp
    ultimately show ?thesis by (simp add: bit_or_iff bit_drop_bit_eq)
  qed
qed

lemma npo2_smear:
  assumes "n \<noteq> 0"
  shows "\<exists>r. ring_buffer_next_power_of_2 n = r + 1 \<and>
             (\<forall>i. bit r i \<longleftrightarrow> (\<exists>j. i \<le> j \<and> bit (n - 1) j))"
proof -
  define x where "x = n - 1"
  define y1 where "y1 = x OR drop_bit 1 x"
  define y2 where "y2 = y1 OR drop_bit 2 y1"
  define y3 where "y3 = y2 OR drop_bit 4 y2"
  define y4 where "y4 = y3 OR drop_bit 8 y3"
  define y5 where "y5 = y4 OR drop_bit 16 y4"
  define y6 where "y6 = y5 OR drop_bit 32 y5"
  have 0: "bit x i \<longleftrightarrow> (\<exists>j. i \<le> j \<and> j \<le> i + 0 \<and> bit x j)" for i by auto
  have 1: "bit y1 i \<longleftrightarrow> (\<exists>j. i \<le> j \<and> j \<le> i + (0 + 1) \<and> bit x j)" for i
    unfolding y1_def by (rule smear_step[OF 0]) simp
  have 2: "bit y2 i \<longleftrightarrow> (\<exists>j. i \<le> j \<and> j \<le> i + (0 + 1 + 2) \<and> bit x j)" for i
    unfolding y2_def by (rule smear_step[OF 1]) simp
  have 3: "bit y3 i \<longleftrightarrow> (\<exists>j. i \<le> j \<and> j \<le> i + (0 + 1 + 2 + 4) \<and> bit x j)" for i
    unfolding y3_def by (rule smear_step[OF 2]) simp
  have 4: "bit y4 i \<longleftrightarrow> (\<exists>j. i \<le> j \<and> j \<le> i + (0 + 1 + 2 + 4 + 8) \<and> bit x j)" for i
    unfolding y4_def by (rule smear_step[OF 3]) simp
  have 5: "bit y5 i \<longleftrightarrow> (\<exists>j. i \<le> j \<and> j \<le> i + (0 + 1 + 2 + 4 + 8 + 16) \<and> bit x j)" for i
    unfolding y5_def by (rule smear_step[OF 4]) simp
  have 6: "bit y6 i \<longleftrightarrow> (\<exists>j. i \<le> j \<and> j \<le> i + (0 + 1 + 2 + 4 + 8 + 16 + 32) \<and> bit x j)" for i
    unfolding y6_def by (rule smear_step[OF 5]) simp
  have res: "ring_buffer_next_power_of_2 n = y6 + 1"
    using assms
    by (simp add: ring_buffer_next_power_of_2_def Let_def y6_def y5_def y4_def y3_def y2_def
        y1_def x_def)
  have "bit y6 i \<longleftrightarrow> (\<exists>j. i \<le> j \<and> bit x j)" for i
  proof -
    have "bit y6 i \<longleftrightarrow> (\<exists>j. i \<le> j \<and> j \<le> i + 63 \<and> bit x j)"
      using 6[of i] by simp
    also have "\<dots> \<longleftrightarrow> (\<exists>j. i \<le> j \<and> bit x j)"
    proof
      assume "\<exists>j. i \<le> j \<and> bit x j"
      then obtain j where j: "i \<le> j" "bit x j" by blast
      then have "j < 64" using bit_imp_le_length[of x j] by simp
      with j show "\<exists>j. i \<le> j \<and> j \<le> i + 63 \<and> bit x j" by (intro exI[of _ j]) simp
    qed blast
    finally show ?thesis .
  qed
  with res show ?thesis unfolding x_def by blast
qed

lemma word_nonzero_bit: "(x::64 word) \<noteq> 0 \<Longrightarrow> \<exists>j. bit x j"
proof (rule ccontr)
  assume "x \<noteq> 0" "\<nexists>j. bit x j"
  then have "x = 0" by (intro bit_eqI) simp
  with \<open>x \<noteq> 0\<close> show False by simp
qed

lemma bit_le_unat: "bit (x::64 word) m \<Longrightarrow> 2 ^ m \<le> unat x"
proof -
  assume "bit x m"
  then have "bit (unat x) m" by (simp add: bit_unsigned_iff)
  then have "odd (unat x div 2 ^ m)" by (simp add: bit_iff_odd)
  then have "unat x div 2 ^ m \<noteq> 0" by (metis even_zero)
  then show ?thesis by (simp add: div_eq_0_iff not_less)
qed

lemma bits_below_less:
  assumes "\<And>j. bit (x::64 word) j \<Longrightarrow> j \<le> m"
  shows "unat x < 2 ^ Suc m"
proof -
  have "take_bit (Suc m) (unat x) = unat x"
    using assms by (intro bit_eqI) (auto simp: bit_take_bit_iff bit_unsigned_iff less_Suc_eq_le simp del: take_bit_Suc)
  moreover have "take_bit (Suc m) (unat x) < 2 ^ Suc m" by (rule take_bit_nat_less_exp)
  ultimately show ?thesis by simp
qed

lemma unat_exp: "e < 64 \<Longrightarrow> unat (2 ^ e :: 64 word) = 2 ^ e"
proof -
  assume e: "e < 64"
  have "(2 ^ e :: 64 word) = of_nat (2 ^ e)" by simp
  then have "unat (2 ^ e :: 64 word) = 2 ^ e mod 2 ^ 64" by (simp only: unat_of_nat) simp
  moreover have "(2::nat) ^ e < 2 ^ 64" using e by (intro power_strict_increasing) auto
  ultimately show ?thesis by simp
qed

lemma npo2_least:
  assumes n0: "n \<noteq> 0" and le: "unat n \<le> 2 ^ 63"
  shows "\<exists>e<64. ring_buffer_next_power_of_2 n = 2 ^ e \<and> unat n \<le> 2 ^ e \<and>
           (\<forall>e'. unat n \<le> 2 ^ e' \<longrightarrow> e \<le> e')"
proof -
  define x where "x = n - 1"
  obtain r where res: "ring_buffer_next_power_of_2 n = r + 1"
    and rbits: "\<And>i. bit r i \<longleftrightarrow> (\<exists>j. i \<le> j \<and> bit x j)"
    using npo2_smear[OF n0] unfolding x_def by blast
  have ux: "unat n = Suc (unat x)" using n0 by (simp add: x_def unat_minus_one unat_gt_0)
  show ?thesis
  proof (cases "x = 0")
    case True
    have "r = 0" by (rule bit_eqI) (simp add: rbits True)
    then have "ring_buffer_next_power_of_2 n = 2 ^ 0" using res by simp
    moreover have "unat n \<le> 2 ^ 0" using ux True by simp
    ultimately show ?thesis by (intro exI[of _ 0]) simp
  next
    case False
    define S where "S = {j. bit x j}"
    have fin: "finite S" unfolding S_def
      by (rule finite_subset[of _ "{..<64}"]) (auto dest: bit_imp_le_length)
    have ne: "S \<noteq> {}" using word_nonzero_bit[OF False] by (auto simp: S_def)
    define m where "m = Max S"
    have bm: "bit x m" using Max_in[OF fin ne] by (simp add: m_def S_def)
    have top: "j \<le> m" if "bit x j" for j using Max_ge[OF fin, of j] that by (simp add: m_def S_def)
    have lo: "2 ^ m \<le> unat x" using bm by (rule bit_le_unat)
    have hi: "unat x < 2 ^ Suc m" using top by (rule bits_below_less)
    have "(2::nat) ^ m < 2 ^ 63" using lo le ux by simp
    then have m63: "m < 63" by (rule power_less_imp_less_exp[rotated]) simp
    have "r = mask (Suc m)"
    proof (rule bit_word_eqI)
      fix i assume "i < LENGTH(64)"
      then show "bit r i \<longleftrightarrow> bit (mask (Suc m) :: 64 word) i"
        using bm top m63 by (auto simp: rbits bit_mask_iff less_Suc_eq_le intro: order_trans)
    qed
    then have r2: "ring_buffer_next_power_of_2 n = 2 ^ Suc m" using res by (simp add: inc_mask_eq_exp)
    have "unat n \<le> 2 ^ Suc m" using hi ux by simp
    moreover have "Suc m \<le> e'" if "unat n \<le> 2 ^ e'" for e'
    proof (rule ccontr)
      assume "\<not> Suc m \<le> e'"
      then have "e' \<le> m" by simp
      then have "(2::nat) ^ e' \<le> 2 ^ m" by (intro power_increasing) auto
      with that lo ux show False by simp
    qed
    ultimately show ?thesis using r2 m63 by (intro exI[of _ "Suc m"]) simp
  qed
qed






subsection \<open>The table-driven CRC-32 is the reference CRC-32\<close>

lemma crc_shift_eq: "crc_shift = crc32_bit_step"
  by (rule ext) (simp add: crc_shift_def crc32_bit_step_def CRC32_POLYNOMIAL_def and_one_eq bit_0 mod_2_eq_odd)

lemma step_xor_high:
  assumes "\<not> bit y 0"
  shows "crc32_bit_step (x XOR y) = crc32_bit_step x XOR drop_bit 1 y"
proof -
  have b: "bit (x XOR y) 0 = bit x 0" using assms by (simp add: bit_xor_iff)
  have d: "drop_bit 1 (x XOR y) = drop_bit 1 x XOR drop_bit 1 y" by (rule drop_bit_xor)
  have sw: "(a XOR b) XOR c = (a XOR c) XOR b" for a b c :: u32 by (simp add: ac_simps)
  show ?thesis
  proof (cases "bit x 0")
    case True
    then show ?thesis unfolding crc32_bit_step_def b d by (simp only: if_True) (rule sw)
  next
    case False
    then show ?thesis unfolding crc32_bit_step_def b d by (simp only: if_False)
  qed
qed

lemma steps_xor_high:
  assumes "take_bit n y = 0"
  shows "(crc32_bit_step ^^ n) (x XOR y) = (crc32_bit_step ^^ n) x XOR drop_bit n y"
  using assms
proof (induction n arbitrary: x y)
  case 0
  then show ?case by simp
next
  case (Suc n)
  have b0: "\<not> bit y 0"
  proof -
    have "bit (take_bit (Suc n) y) 0 = bit y 0" by (simp add: bit_take_bit_iff del: take_bit_Suc)
    then show ?thesis using Suc.prems by simp
  qed
  have low: "take_bit n (drop_bit 1 y) = 0"
  proof -
    have "take_bit n (drop_bit 1 y) = drop_bit 1 (take_bit (n + 1) y)" by (rule take_bit_drop_bit)
    then show ?thesis using Suc.prems by simp
  qed
  have "(crc32_bit_step ^^ Suc n) (x XOR y) = (crc32_bit_step ^^ n) (crc32_bit_step (x XOR y))"
    by (simp add: funpow_swap1)
  also have "\<dots> = (crc32_bit_step ^^ n) (crc32_bit_step x XOR drop_bit 1 y)"
    by (simp add: step_xor_high[OF b0])
  also have "\<dots> = (crc32_bit_step ^^ n) (crc32_bit_step x) XOR drop_bit n (drop_bit 1 y)"
    by (rule Suc.IH[OF low])
  also have "\<dots> = (crc32_bit_step ^^ Suc n) x XOR drop_bit (Suc n) y"
    by (simp add: funpow_swap1 drop_bit_drop_bit)
  finally show ?case .
qed

lemma crc32_table_nth: "i < 256 \<Longrightarrow> crc32_table ! i = (crc32_bit_step ^^ 8) (of_nat i)"
  by (simp add: crc32_table_def crc_shift_eq)

lemma crc32_update_eq: "crc32_update b c = (crc32_bit_step ^^ 8) (c XOR ucast b)"
proof -
  define z where "z = c XOR (ucast b :: u32)"
  define lo where "lo = take_bit 8 z"
  define hi where "hi = z XOR lo"
  have lo_and: "z AND 0xFF = lo"
    unfolding lo_def take_bit_eq_mask by (simp add: mask_eq_exp_minus_1)
  have "unat lo = take_bit 8 (unat z)" unfolding lo_def by (rule unsigned_take_bit_eq)
  then have lt: "unat lo < 256" using take_bit_nat_less_exp[of 8 "unat z"] by simp
  have tab: "crc32_table ! unat lo = (crc32_bit_step ^^ 8) lo"
    using crc32_table_nth[OF lt] by simp
  have z: "z = lo XOR hi" by (rule bit_eqI) (auto simp: hi_def bit_xor_iff)
  have low: "take_bit 8 hi = 0" by (simp add: hi_def lo_def take_bit_xor)
  have "drop_bit 8 (ucast b :: u32) = 0"
    by (rule bit_eqI) (auto simp: bit_simps dest: bit_imp_le_length)
  then have dz: "drop_bit 8 z = drop_bit 8 c" by (simp add: z_def drop_bit_xor)
  have "drop_bit 8 lo = 0" unfolding lo_def by (simp add: drop_bit_take_bit)
  then have dh: "drop_bit 8 hi = drop_bit 8 c" by (simp add: hi_def drop_bit_xor dz)
  have "(crc32_bit_step ^^ 8) z = (crc32_bit_step ^^ 8) lo XOR drop_bit 8 hi"
    unfolding z by (rule steps_xor_high[OF low])
  then show ?thesis
    unfolding crc32_update_def z_def[symmetric] lo_and tab dh by simp
qed

lemma crc32_fold_reference:
  "fold crc32_update bs c = fold (\<lambda>b c. (crc32_bit_step ^^ 8) (c XOR ucast b)) bs c"
proof -
  have "crc32_update = (\<lambda>b c. (crc32_bit_step ^^ 8) (c XOR ucast b))"
    by (intro ext) (rule crc32_update_eq)
  then show ?thesis by simp
qed

text \<open>
  C7. On every byte sequence \<open>ring_buffer_crc32\<close>, computed with the table that
  \<open>init_crc32_table\<close> builds, is the bit-at-a-time reflected CRC-32 with polynomial
  \<open>0xEDB88320\<close>, initial value \<open>0xFFFFFFFF\<close> and final complement.
\<close>

theorem crc32_table_driven: "ring_buffer_crc32 bytes sz = crc32_reference (take (unat sz) bytes)"
  by (simp add: ring_buffer_crc32_def crc32_reference_def crc32_fold_reference)

lemma crc32_reference_letter_a: "crc32_reference [0x61] = 0xE8B7BE43"
  by code_simp

subsection \<open>Facts about validated descriptors and frame sizes\<close>

lemma nat_bit_top: "2 ^ m \<le> (y::nat) \<Longrightarrow> y < 2 ^ Suc m \<Longrightarrow> bit y m"
proof -
  assume lo: "2 ^ m \<le> y" and hi: "y < 2 ^ Suc m"
  have "y div 2 ^ m < 2" using hi by (simp add: less_mult_imp_div_less mult.commute)
  moreover have "1 \<le> y div 2 ^ m" using lo by (simp add: div_greater_zero_iff Suc_le_eq)
  ultimately have "y div 2 ^ m = 1" by simp
  then show ?thesis by (simp add: bit_iff_odd)
qed

lemma power_of_two_word:
  fixes x :: "64 word"
  assumes x0: "x \<noteq> 0" and a: "x AND (x - 1) = 0"
  shows "\<exists>e<64. x = 2 ^ e"
proof -
  define S where "S = {j. bit x j}"
  have fin: "finite S" unfolding S_def
    by (rule finite_subset[of _ "{..<64}"]) (auto dest: bit_imp_le_length)
  have ne: "S \<noteq> {}" using word_nonzero_bit[OF x0] by (auto simp: S_def)
  define m where "m = Max S"
  have bm: "bit x m" using Max_in[OF fin ne] by (simp add: m_def S_def)
  have top: "j \<le> m" if "bit x j" for j using Max_ge[OF fin, of j] that by (simp add: m_def S_def)
  have m64: "m < 64" using bit_imp_le_length[OF bm] by simp
  have lo: "2 ^ m \<le> unat x" using bm by (rule bit_le_unat)
  have hi: "unat x < 2 ^ Suc m" using top by (rule bits_below_less)
  have "unat x = 2 ^ m"
  proof (rule ccontr)
    assume "unat x \<noteq> 2 ^ m"
    with lo have gt: "2 ^ m < unat x" by simp
    have u1: "unat (x - 1) = unat x - 1" using x0 by (simp add: unat_minus_one)
    have "bit (unat (x - 1)) m" unfolding u1 using gt hi by (intro nat_bit_top) auto
    then have "bit (x - 1) m" by (simp add: bit_unsigned_iff)
    with bm have "bit (x AND (x - 1)) m" by (simp add: bit_and_iff)
    with a show False by simp
  qed
  then have "unat x = unat (2 ^ m :: 64 word)" using unat_exp[OF m64] by simp
  then have "x = 2 ^ m" by (simp only: word_unat_eq_iff)
  with m64 show ?thesis by blast
qed

lemma power_of_two_and: "e < 64 \<Longrightarrow> (2 ^ e :: 64 word) AND (2 ^ e - 1) = 0"
proof -
  assume "e < 64"
  have "(2 ^ e - 1 :: 64 word) = mask e" by (simp add: mask_eq_exp_minus_1)
  then have "(2 ^ e :: 64 word) AND (2 ^ e - 1) = 2 ^ e AND mask e" by simp
  also have "\<dots> = 0" by (rule bit_eqI) (auto simp: bit_and_iff bit_exp_iff bit_mask_iff)
  finally show ?thesis .
qed

lemma validate_facts:
  assumes "ring_buffer_validate (Some rb)"
  shows "magic rb = RING_BUFFER_MAGIC" "\<exists>m. buffer rb = Region m" "\<exists>e<64. size_rb rb = 2 ^ e"
    "write_pos rb < size_rb rb" "read_pos rb < size_rb rb" "commit_pos rb < size_rb rb"
proof -
  from assms have *: "magic rb = RING_BUFFER_MAGIC" "buffer rb \<noteq> NULL_PTR" "buffer rb \<noteq> MAP_FAILED"
    "size_rb rb \<noteq> 0" "size_rb rb AND (size_rb rb - 1) = 0"
    "\<not> size_rb rb \<le> write_pos rb" "\<not> size_rb rb \<le> read_pos rb" "\<not> size_rb rb \<le> commit_pos rb"
    by (auto simp: ring_buffer_validate_def split: if_splits)
  show "magic rb = RING_BUFFER_MAGIC" by (rule *(1))
  show "\<exists>m. buffer rb = Region m" using *(2,3) by (cases "buffer rb") auto
  show "\<exists>e<64. size_rb rb = 2 ^ e" using *(4,5) by (rule power_of_two_word)
  show "write_pos rb < size_rb rb" "read_pos rb < size_rb rb" "commit_pos rb < size_rb rb"
    using *(6,7,8) by (simp_all add: not_le)
qed

lemma and_size_mask:
  fixes x :: "64 word"
  assumes "e < 64" and "x < 2 ^ e"
  shows "x AND (2 ^ e - 1) = x"
proof -
  have "(2 ^ e - 1 :: 64 word) = mask e" by (simp add: mask_eq_exp_minus_1)
  then show ?thesis using less_mask_eq[OF assms(2)] by simp
qed

lemma and_size_less:
  fixes x :: "64 word"
  assumes "e < 64"
  shows "x AND (2 ^ e - 1) < 2 ^ e"
proof -
  have "(2 ^ e - 1 :: 64 word) = mask e" by (simp add: mask_eq_exp_minus_1)
  then show ?thesis using and_mask_less_size[of e x] assms by (simp add: word_size)
qed

lemma unat_and_not_7: "unat ((y::64 word) AND NOT 7) = unat y - unat y mod 8"
proof -
  have "(7 :: 64 word) = mask 3" by (simp add: mask_eq_exp_minus_1)
  then have "y AND NOT 7 = y AND NOT (mask 3)" by simp
  also have "\<dots> = push_bit 3 (drop_bit 3 y)"
    by (rule bit_eqI) (auto simp: bit_and_iff bit_not_iff bit_mask_iff bit_push_bit_iff bit_drop_bit_eq not_less)
  finally have e: "y AND NOT 7 = push_bit 3 (drop_bit 3 y)" .
  have "unat (push_bit 3 (drop_bit 3 y)) = take_bit 64 (push_bit 3 (unat (drop_bit 3 y)))"
    by (simp add: unsigned_push_bit_eq)
  also have "unat (drop_bit 3 y) = unat y div 8"
    by (simp only: unat_drop_bit_eq) (simp add: drop_bit_eq_div)
  also have "push_bit 3 (unat y div 8) = 8 * (unat y div 8)" by (simp add: push_bit_eq_mult)
  also have "take_bit 64 (8 * (unat y div 8)) = 8 * (unat y div 8)"
  proof -
    have "unat y < 2 ^ 64" using unsigned_less[of y] by simp
    then have "8 * (unat y div 8) < 2 ^ 64" by simp
    then show ?thesis by (simp add: take_bit_eq_mod)
  qed
  also have "8 * (unat y div 8) = unat y - unat y mod 8" by (simp add: minus_mod_eq_mult_div)
  finally show ?thesis by (simp only: e)
qed

lemma unat_total_message_size:
  assumes "sz \<le> RING_BUFFER_MAX_MESSAGE_SIZE"
  shows "unat (total_message_size sz) = unat sz + 31 - (unat sz + 31) mod 8"
proof -
  have le: "unat sz \<le> 16777216"
    using assms by (simp add: RING_BUFFER_MAX_MESSAGE_SIZE_def word_le_nat_alt)
  have "total_message_size sz = (sz + 31) AND NOT 7"
    by (simp add: total_message_size_def align_size_def sizeof_header_def MESSAGE_ALIGNMENT_def
        ac_simps)
  moreover have "unat (sz + 31) = unat sz + 31"
    using le by (simp add: unat_add_lem[THEN iffD1])
  ultimately show ?thesis by (simp only: unat_and_not_7)
qed

lemma total_message_size_bounds:
  assumes "sz \<le> RING_BUFFER_MAX_MESSAGE_SIZE"
  shows "unat sz + 24 \<le> unat (total_message_size sz)"
    and "unat (total_message_size sz) \<le> unat sz + 31"
proof -
  have "(unat sz + 31) mod 8 \<le> 7" by simp
  then show "unat sz + 24 \<le> unat (total_message_size sz)"
    unfolding unat_total_message_size[OF assms] by linarith
  show "unat (total_message_size sz) \<le> unat sz + 31"
    unfolding unat_total_message_size[OF assms] by simp
qed

lemma size_le_2p63:
  assumes "e < 64"
  shows "unat (2 ^ e :: 64 word) \<le> 2 ^ 63"
proof -
  have "(2::nat) ^ e \<le> 2 ^ 63" using assms by (intro power_increasing) auto
  then show ?thesis using unat_exp[OF assms] by simp
qed

lemma length_mem_write: "length (mem_write obj off xs) = length obj"
  by (auto simp: mem_write_def min_def)

lemma arena_copy_in_ok:
  assumes buf: "buffer rb = Region m" and sz: "size_rb rb = 2 ^ e" "e < 64"
    and pos: "pos < size_rb rb" and n: "n < size_rb rb"
  shows "\<exists>m'. arena_copy_in rb pos (Some bs) n = (True, rb\<lparr>buffer := Region m'\<rparr>) \<and>
              length m' = length m"
proof -
  have N: "unat (size_rb rb) \<le> 2 ^ 63" using size_le_2p63[OF sz(2)] sz(1) by simp
  have p: "unat pos < unat (size_rb rb)" and nn: "unat n < unat (size_rb rb)"
    using pos n by (simp_all add: word_less_nat_alt)
  have sum: "unat (pos + n) = unat pos + unat n"
    using p nn N by (intro unat_add_lem[THEN iffD1]) simp
  have sub: "unat (size_rb rb - pos) = unat (size_rb rb) - unat pos"
    using pos by (intro unat_sub) simp
  show ?thesis
  proof (cases "pos + n \<le> size_rb rb")
    case True
    then have "unat pos + unat n \<le> unat (size_rb rb)" by (simp add: word_le_nat_alt sum)
    then have "\<not> size_rb rb - pos < n" by (simp add: word_less_nat_alt sub)
    then show ?thesis using True buf
      by (auto simp: arena_copy_in_def safe_memcpy_def length_mem_write)
  next
    case False
    then have gt: "unat (size_rb rb) < unat pos + unat n" by (simp add: word_le_nat_alt sum not_le)
    then have "size_rb rb - pos \<le> n" using sub by (simp add: word_le_nat_alt)
    then have "unat (n - (size_rb rb - pos)) = unat n - unat (size_rb rb - pos)" by (rule unat_sub)
    then have "\<not> size_rb rb < n - (size_rb rb - pos)" using nn by (simp add: word_less_nat_alt)
    then show ?thesis using False buf
      by (auto simp: arena_copy_in_def safe_memcpy_def Let_def ptr_add_def length_mem_write)
  qed
qed

lemma available_write_less:
  assumes "ring_buffer_validate (Some rb)"
  shows "unat (ring_buffer_available_write (Some rb)) < unat (size_rb rb)"
proof -
  note v = validate_facts[OF assms]
  have "unat (ring_buffer_available_write (Some rb)) =
          unat (size_rb rb) - 1 - unat (utilization_used rb)"
    using v(4,5) by (rule free_unat)
  moreover have "0 < unat (size_rb rb)" using v(4) by (simp add: word_less_nat_alt)
  ultimately show ?thesis by simp
qed

lemma write_reserve_Inr:
  assumes "write_reserve rb sz = Inr (rb', wp, nwp)"
  shows "ring_buffer_validate (Some rb)" "sz \<le> RING_BUFFER_MAX_MESSAGE_SIZE"
    "\<not> double_ge (ring_buffer_utilization (Some rb)) (backpressure_threshold rb)"
    "total_message_size sz \<le> ring_buffer_available_write (Some rb)"
    "wp = write_pos rb" "nwp = (write_pos rb + total_message_size sz) AND (size_rb rb - 1)"
    "rb' = rb\<lparr>backpressure := False, write_pos := nwp\<rparr>"
  using assms
  by (auto simp: write_reserve_def Let_def ring_buffer_available_write_def not_less
      split: if_splits)

lemma write_frame_ok:
  assumes v: "ring_buffer_validate (Some rb)" and mx: "sz \<le> RING_BUFFER_MAX_MESSAGE_SIZE"
    and fit: "total_message_size sz \<le> ring_buffer_available_write (Some rb)"
  shows "fst (write_frame (rb\<lparr>backpressure := b, write_pos := nwp\<rparr>) (write_pos rb) bytes sz now)"
proof -
  note f = validate_facts[OF v]
  from f(2) obtain m where m: "buffer rb = Region m" by blast
  from f(3) obtain e where e: "e < 64" "size_rb rb = 2 ^ e" by blast
  have "unat (total_message_size sz) < unat (size_rb rb)"
    using fit available_write_less[OF v] by (simp add: word_le_nat_alt)
  with total_message_size_bounds(1)[OF mx]
  have big: "unat sz + 24 < unat (size_rb rb)" by simp
  then have h: "sizeof_header < size_rb rb" and s: "sz < size_rb rb"
    by (simp_all add: word_less_nat_alt sizeof_header_def)
  define rb1 where "rb1 = rb\<lparr>backpressure := b, write_pos := nwp\<rparr>"
  have b1: "buffer rb1 = Region m" "size_rb rb1 = 2 ^ e" "write_pos rb < size_rb rb1"
    "sizeof_header < size_rb rb1"
    using m e f(4) h by (simp_all add: rb1_def)
  from arena_copy_in_ok[OF b1(1,2) e(1) b1(3,4)]
  obtain m1 where m1: "\<And>bs. \<exists>m'. arena_copy_in rb1 (write_pos rb) (Some bs) sizeof_header =
      (True, rb1\<lparr>buffer := Region m'\<rparr>)" by blast
  show ?thesis
  proof -
    let ?hdr = "\<lparr>h_magic = ARROW_IPC_MAGIC, h_length = ucast sz, h_timestamp = now,
                  h_checksum = ring_buffer_crc32 bytes sz, h_reserved = 0\<rparr>"
    from m1[of "header_bytes ?hdr"] obtain m' where
      c1: "arena_copy_in rb1 (write_pos rb) (Some (header_bytes ?hdr)) sizeof_header =
            (True, rb1\<lparr>buffer := Region m'\<rparr>)" by blast
    define rb2 where "rb2 = rb1\<lparr>buffer := Region m'\<rparr>"
    have b2: "buffer rb2 = Region m'" "size_rb rb2 = 2 ^ e"
      "(write_pos rb + sizeof_header) AND (size_rb rb2 - 1) < size_rb rb2" "sz < size_rb rb2"
      using e s and_size_less[OF e(1)] by (simp_all add: rb2_def rb1_def)
    from arena_copy_in_ok[OF b2(1,2) e(1) b2(3,4)]
    obtain m2 where "arena_copy_in rb2 ((write_pos rb + sizeof_header) AND (size_rb rb2 - 1))
        (Some bytes) sz = (True, rb2\<lparr>buffer := Region m2\<rparr>)" by blast
    then show ?thesis
      unfolding write_frame_def Let_def rb1_def[symmetric] c1 by (simp add: rb2_def)
  qed
qed

lemma read_header_ok:
  assumes v: "ring_buffer_validate (Some rb)"
  shows "read_header rb (read_pos rb) \<noteq> None"
proof -
  note f = validate_facts[OF v]
  from f(2) obtain m where m: "buffer rb = Region m" by blast
  from f(3) obtain e where e: "e < 64" "size_rb rb = 2 ^ e" by blast
  have N: "unat (size_rb rb) \<le> 2 ^ 63" using size_le_2p63[OF e(1)] e(2) by simp
  have p: "unat (read_pos rb) < unat (size_rb rb)" using f(5) by (simp add: word_less_nat_alt)
  have sum: "unat (read_pos rb + sizeof_header) = unat (read_pos rb) + 24"
    using p N by (simp add: unat_add_lem[THEN iffD1] sizeof_header_def)
  have sub: "unat (size_rb rb - read_pos rb) = unat (size_rb rb) - unat (read_pos rb)"
    using f(5) by (intro unat_sub) simp
  show ?thesis
  proof (cases "read_pos rb + sizeof_header \<le> size_rb rb")
    case True
    then show ?thesis using m by (simp add: read_header_def safe_memcpy_def ptr_add_def)
  next
    case False
    then have "unat (size_rb rb) - unat (read_pos rb) < 24"
      by (simp add: word_le_nat_alt sum not_le) 
    then have "\<not> sizeof_header < size_rb rb - read_pos rb"
      by (simp add: word_less_nat_alt sub sizeof_header_def)
    then show ?thesis using False m
      by (simp add: read_header_def safe_memcpy_def ptr_add_def Let_def)
  qed
qed


subsection \<open>The bounds-checked copies cannot fail\<close>

text \<open>
  C9. Neither \<open>ring_buffer_write\<close> nor \<open>ring_buffer_read\<close> ever returns
  \<open>RING_BUFFER_ERROR\<close>: after \<open>ring_buffer_validate\<close> and the size, free-space and
  availability checks that the functions make themselves, every \<open>safe_memcpy\<close> gets
  non-null pointers and a length within the destination size, so the branches that
  return the undeclared code are unreachable. The theorem has no precondition because
  the functions return before the first copy when one of their checks fails.
\<close>

theorem copies_never_fail:
  "fst (ring_buffer_write h data_ptr sz now) \<noteq> RING_BUFFER_ERROR \<and>
   fst (ring_buffer_read h msg_ptr) \<noteq> RING_BUFFER_ERROR"
proof
  show "fst (ring_buffer_write h data_ptr sz now) \<noteq> RING_BUFFER_ERROR"
  proof (cases h)
    case None
    then show ?thesis by (simp add: ring_buffer_write_def)
  next
    case (Some rb)
    show ?thesis
    proof (cases data_ptr)
      case None
      then show ?thesis using Some by (simp add: ring_buffer_write_def)
    next
      case (Some bytes)
      show ?thesis
      proof (cases "write_reserve rb sz")
        case (Inl a)
        then have "fst a \<noteq> RING_BUFFER_ERROR"
          by (auto simp: write_reserve_def Let_def split: if_splits)
        then show ?thesis using Inl \<open>h = Some rb\<close> Some
          by (auto simp: ring_buffer_write_def split: prod.splits)
      next
        case (Inr t)
        obtain rb' wp nwp where t: "t = (rb', wp, nwp)" by (cases t)
        note r = write_reserve_Inr[OF Inr[unfolded t]]
        have "fst (write_frame rb' wp bytes sz now)"
          unfolding r(7) r(5) by (rule write_frame_ok[OF r(1,2,4)])
        then show ?thesis using Inr t \<open>h = Some rb\<close> Some
          by (auto simp: ring_buffer_write_def split: prod.splits bool.splits)
      qed
    qed
  qed
  show "fst (ring_buffer_read h msg_ptr) \<noteq> RING_BUFFER_ERROR"
  proof (cases h)
    case None
    then show ?thesis by (simp add: ring_buffer_read_def)
  next
    case (Some rb)
    show ?thesis
    proof (cases "ring_buffer_validate (Some rb)")
      case True
      from read_header_ok[OF True] show ?thesis using Some
        by (auto simp: ring_buffer_read_def Let_def split: option.splits)
    next
      case False
      then show ?thesis using Some by (simp add: ring_buffer_read_def split: option.splits)
    qed
  qed
qed

subsection \<open>A failed read changes the error counter only\<close>

text \<open>
  C2. Whenever \<open>ring_buffer_read\<close> returns \<open>RING_BUFFER_ERROR_CORRUPTED\<close>, whatever the
  cause (frame magic, length above 16 MiB, checksum, payload that wraps past the end of
  the arena, or a descriptor that does not validate), the descriptor after the call is
  the one before it with \<open>read_errors\<close> incremented by one: the three cursors, the
  arena bytes, \<open>messages_read\<close> and \<open>bytes_read\<close> are unchanged.
\<close>

theorem read_error_atomicity:
  assumes "ring_buffer_read (Some rb) (Some msg) = (RING_BUFFER_ERROR_CORRUPTED, h', msg')"
  shows "h' = Some (rb\<lparr>read_errors := read_errors rb + 1\<rparr>)"
  using assms
  by (auto simp: ring_buffer_read_def Let_def split: if_splits option.splits)


lemma le_word_zeros: "le_word (replicate n 0) = 0"
  by (induction n) simp_all


theorem read_error_atomicity_witness:
  "ring_buffer_read (Some (new_descriptor 64\<lparr>commit_pos := 32\<rparr>)) (Some blank_message) =
     (RING_BUFFER_ERROR_CORRUPTED,
      Some (new_descriptor 64\<lparr>commit_pos := 32, read_errors := 1\<rparr>), Some blank_message)"
proof -
  have "ring_buffer_read (Some (new_descriptor 64\<lparr>commit_pos := 32\<rparr>)) (Some blank_message) =
     (RING_BUFFER_ERROR_CORRUPTED,
      fst (snd (ring_buffer_read (Some (new_descriptor 64\<lparr>commit_pos := 32\<rparr>))
                 (Some blank_message))),
      Some blank_message)"
    by (simp add: ring_buffer_read_def ring_buffer_validate_def new_descriptor_def
      ring_buffer_available_read_def read_header_def safe_memcpy_def ptr_add_def mem_write_def
      header_of_bytes_def mem_read_def le_word_zeros sizeof_header_def RING_BUFFER_MAGIC_def
      ARROW_IPC_MAGIC_def Let_def)
  from read_error_atomicity [OF this] this show ?thesis
    by (simp add: new_descriptor_def)
qed

text \<open>Each of the four causes named in C2 makes the read return the code.\<close>

lemma read_corrupted_causes:
  assumes "ring_buffer_validate (Some rb)"
    and "\<not> ring_buffer_available_read (Some rb) < sizeof_header"
    and "read_header rb (read_pos rb) = Some local"
    and "hdr = header_of_bytes local"
    and "h_magic hdr \<noteq> ARROW_IPC_MAGIC \<or>
         RING_BUFFER_MAX_MESSAGE_SIZE < ucast (h_length hdr) \<or>
         (\<not> ring_buffer_available_read (Some rb) < total_message_size (ucast (h_length hdr)) \<and>
          (\<not> ((read_pos rb + sizeof_header) AND (size_rb rb - 1)) + ucast (h_length hdr)
                \<le> size_rb rb \<or>
           ring_buffer_crc32
             (drop (unat ((read_pos rb + sizeof_header) AND (size_rb rb - 1)))
                (region_bytes (buffer rb)))
             (ucast (h_length hdr)) \<noteq> h_checksum hdr))"
  shows "fst (ring_buffer_read (Some rb) (Some msg)) = RING_BUFFER_ERROR_CORRUPTED"
  using assms by (auto simp: ring_buffer_read_def Let_def)

subsection \<open>Sizes below \<open>2^53\<close> convert to double exactly\<close>

lemma round_double_exact_scaled:
  assumes "n < 2 ^ 53"
  shows "round_double (of_nat n * pow2 z) = of_nat n * pow2 z"
proof (cases "n = 0")
  case True
  then show ?thesis by (simp add: round_double_def)
next
  case False
  define x :: rat where "x = of_nat n * pow2 z"
  have xpos: "0 < x" using False pow2_pos[of z] by (simp add: x_def)
  define E where "E = exponent x"
  from exponent_bounds[OF xpos] have lo: "pow2 E \<le> x" by (simp add: E_def)
  have "(of_nat n :: rat) < 2 ^ 53" using assms by (metis of_nat_less_iff of_nat_numeral of_nat_power)
  then have "x < 2 ^ 53 * pow2 z" using pow2_pos[of z] by (simp add: x_def)
  also have "\<dots> = pow2 (53 + z)"
    using pow2_add[of 53 z] pow2_nat[of 53] by simp
  finally have "pow2 E < pow2 (53 + z)" using lo by simp
  then have Elt: "E < 53 + z" by (simp add: pow2_less_iff)
  define j where "j = nat (52 - E + z)"
  have j: "int j = 52 - E + z" using Elt by (simp add: j_def)
  define w where "w = int n * 2 ^ j"
  have "pow2 z = pow2 (int j) * pow2 (E - 52)" unfolding pow2_add[symmetric] j by simp
  then have "x = of_int w * pow2 (E - 52)" by (simp add: x_def w_def pow2_nat)
  then have m: "x / pow2 (E - 52) = of_int w" using pow2_pos[of "E - 52"] by simp
  have "round_double x = of_int w * pow2 (E - 52)"
    using xpos by (simp add: round_double_def Let_def E_def[symmetric] m round_half_even_int)
  also have "\<dots> = x" using m pow2_pos[of "E - 52"] by (simp add: field_simps)
  finally show ?thesis by (simp add: x_def)
qed

lemma double_of_size_small:
  assumes "unat u < 2 ^ 53"
  shows "double_of_size_t u = Finite (of_nat (unat u))"
  using round_double_exact_scaled[OF assms, of 0] by (simp add: double_of_size_t_def pow2_def)

lemma double_of_size_power:
  assumes "e < 64"
  shows "double_of_size_t (2 ^ e) = Finite (2 ^ e)"
proof -
  have "round_double (of_nat 1 * pow2 (int e)) = of_nat 1 * pow2 (int e)"
    by (rule round_double_exact_scaled) simp
  then show ?thesis by (simp add: double_of_size_t_def unat_exp[OF assms] pow2_nat)
qed

lemma utilization_exact:
  assumes v: "ring_buffer_validate (Some rb)" and small: "unat (utilization_used rb) < 2 ^ 53"
  shows "ring_buffer_utilization (Some rb) =
           Finite (of_nat (unat (utilization_used rb)) / of_nat (unat (size_rb rb)))"
proof -
  from validate_facts(3)[OF v] obtain e where e: "e < 64" "size_rb rb = 2 ^ e" by blast
  have "round_double (of_nat (unat (utilization_used rb)) / 2 ^ e) =
          of_nat (unat (utilization_used rb)) / 2 ^ e"
    using small by (rule round_double_exact)
  then show ?thesis
    by (simp add: ring_buffer_utilization_def double_of_size_small[OF small] e(2)
        double_of_size_power[OF e(1)] unat_exp[OF e(1)])
qed

lemma utilization_exact_pow:
  assumes e: "e < 64" and N: "size_rb rb = 2 ^ e" and small: "unat (utilization_used rb) < 2 ^ 53"
  shows "ring_buffer_utilization (Some rb) =
           Finite (of_nat (unat (utilization_used rb)) / 2 ^ e)"
proof -
  have "round_double (of_nat (unat (utilization_used rb)) / 2 ^ e) =
          of_nat (unat (utilization_used rb)) / 2 ^ e"
    using small by (rule round_double_exact)
  then show ?thesis
    by (simp add: ring_buffer_utilization_def double_of_size_small[OF small] N
        double_of_size_power[OF e])
qed

subsection \<open>Occupancy accounting\<close>

text \<open>
  C5. For cursors \<open>write_pos\<close>, \<open>read_pos\<close> below the capacity \<open>N\<close>: the occupancy
  \<open>used\<close> that \<open>ring_buffer_utilization\<close> computes, in its wrapped and in its
  non-wrapped branch, is \<open>(write_pos - read_pos) mod N\<close>, and the function returns the
  quotient of this number and \<open>N\<close>, both converted to double;
  \<open>ring_buffer_available_write\<close> returns \<open>N - 1 - used\<close> in both of its branches, and
  so used + free = N - 1. When \<open>N\<close> is a power of two up to \<open>2^53\<close> the conversions
  and the division are exact, and the utilization is the fraction \<open>used / N\<close> itself.
\<close>

theorem occupancy_accounting:
  assumes "write_pos rb < size_rb rb" and "read_pos rb < size_rb rb"
  shows "uint (utilization_used rb) =
           (uint (write_pos rb) - uint (read_pos rb)) mod uint (size_rb rb) \<and>
         uint (ring_buffer_available_write (Some rb)) =
           uint (size_rb rb) - 1 - uint (utilization_used rb) \<and>
         uint (utilization_used rb) + uint (ring_buffer_available_write (Some rb)) =
           uint (size_rb rb) - 1 \<and>
         ring_buffer_utilization (Some rb) =
           double_div
             (double_of_size_t
                (word_of_int ((uint (write_pos rb) - uint (read_pos rb)) mod uint (size_rb rb))))
             (double_of_size_t (size_rb rb)) \<and>
         uint (ring_buffer_available_write (Some rb)) =
           uint (size_rb rb) - 1 -
             (uint (write_pos rb) - uint (read_pos rb)) mod uint (size_rb rb) \<and>
         (\<forall>e\<le>53. size_rb rb = 2 ^ e \<longrightarrow>
            ring_buffer_utilization (Some rb) =
              Finite (of_int ((uint (write_pos rb) - uint (read_pos rb)) mod uint (size_rb rb)) /
                      of_int (uint (size_rb rb))))"
proof -
  have u: "uint (utilization_used rb) =
           (uint (write_pos rb) - uint (read_pos rb)) mod uint (size_rb rb)"
    using assms by (rule used_uint)
  have pos: "0 < uint (size_rb rb)"
    using assms(1) by (simp add: word_less_def) (smt (verit) uint_ge_0)
  have lt: "uint (utilization_used rb) < uint (size_rb rb)"
    unfolding u using pos by simp
  have lt': "unat (utilization_used rb) < unat (size_rb rb)"
    using lt by (simp add: word_less_def [symmetric] word_less_nat_alt [symmetric])
  have "unat (ring_buffer_available_write (Some rb)) =
          unat (size_rb rb) - 1 - unat (utilization_used rb)"
    using assms by (rule free_unat)
  with lt' have "int (unat (ring_buffer_available_write (Some rb))) =
          int (unat (size_rb rb)) - 1 - int (unat (utilization_used rb))" by linarith
  then have f: "uint (ring_buffer_available_write (Some rb)) =
           uint (size_rb rb) - 1 - uint (utilization_used rb)" by simp
  have "utilization_used rb = word_of_int (uint (utilization_used rb))" by simp
  then have w: "utilization_used rb =
      word_of_int ((uint (write_pos rb) - uint (read_pos rb)) mod uint (size_rb rb))"
    by (simp only: u)
  have "ring_buffer_utilization (Some rb) =
          double_div (double_of_size_t (utilization_used rb)) (double_of_size_t (size_rb rb))"
    by (simp add: ring_buffer_utilization_def)
  then have d: "ring_buffer_utilization (Some rb) =
           double_div
             (double_of_size_t
                (word_of_int ((uint (write_pos rb) - uint (read_pos rb)) mod uint (size_rb rb))))
             (double_of_size_t (size_rb rb))"
    using w by simp
  have f': "uint (ring_buffer_available_write (Some rb)) =
           uint (size_rb rb) - 1 -
             (uint (write_pos rb) - uint (read_pos rb)) mod uint (size_rb rb)"
    using f by (simp only: u)
  have x: "ring_buffer_utilization (Some rb) =
              Finite (of_int ((uint (write_pos rb) - uint (read_pos rb)) mod uint (size_rb rb)) /
                      of_int (uint (size_rb rb)))"
    if e53: "e \<le> 53" and N: "size_rb rb = 2 ^ e" for e
  proof -
    have e: "e < 64" using e53 by simp
    have uN: "unat (size_rb rb) = 2 ^ e" using N unat_exp[OF e] by simp
    have "(2::nat) ^ e \<le> 2 ^ 53" using e53 by (intro power_increasing) auto
    then have "unat (utilization_used rb) < 2 ^ 53" using lt' uN by simp
    from utilization_exact_pow[OF e N this]
    have "ring_buffer_utilization (Some rb) =
            Finite (of_nat (unat (utilization_used rb)) / of_nat (unat (size_rb rb)))"
      by (simp add: uN)
    also have "(of_nat (unat (utilization_used rb)) :: rat) = of_int (uint (utilization_used rb))"
      by simp
    also have "(of_nat (unat (size_rb rb)) :: rat) = of_int (uint (size_rb rb))"
      by simp
    finally show ?thesis by (simp only: u)
  qed
  from x have x': "\<forall>e\<le>53. size_rb rb = 2 ^ e \<longrightarrow>
            ring_buffer_utilization (Some rb) =
              Finite (of_int ((uint (write_pos rb) - uint (read_pos rb)) mod uint (size_rb rb)) /
                      of_int (uint (size_rb rb)))" by blast
  have s: "uint (utilization_used rb) + uint (ring_buffer_available_write (Some rb)) =
           uint (size_rb rb) - 1" using f by simp
  from u f s d f' x' show ?thesis by (intro conjI)
qed

theorem occupancy_accounting_witness:
  "write_pos (new_descriptor 64\<lparr>write_pos := 8, read_pos := 40\<rparr>) < 64 \<and>
   read_pos (new_descriptor 64\<lparr>write_pos := 8, read_pos := 40\<rparr>) < 64 \<and>
   (6 :: nat) \<le> 53 \<and>
   size_rb (new_descriptor 64\<lparr>write_pos := 8, read_pos := 40\<rparr>) = 2 ^ 6 \<and>
   uint (utilization_used (new_descriptor 64\<lparr>write_pos := 8, read_pos := 40\<rparr>)) = 32 \<and>
   uint (ring_buffer_available_write
           (Some (new_descriptor 64\<lparr>write_pos := 8, read_pos := 40\<rparr>))) = 31 \<and>
   ring_buffer_utilization (Some (new_descriptor 64\<lparr>write_pos := 8, read_pos := 40\<rparr>)) =
     Finite (1 / 2)"
proof -
  define rb where "rb = new_descriptor 64\<lparr>write_pos := 8, read_pos := 40\<rparr>"
  have s: "size_rb rb = 2 ^ 6" and w: "write_pos rb = 8" and r: "read_pos rb = 40"
    by (simp_all add: rb_def new_descriptor_def)
  have a: "write_pos rb < size_rb rb" "read_pos rb < size_rb rb"
    by (simp_all add: s w r)
  note t = occupancy_accounting [OF a]
  have u: "uint (utilization_used rb) = 32"
    using t [THEN conjunct1] by (simp add: s w r)
  have f: "uint (ring_buffer_available_write (Some rb)) = 31"
    using t [THEN conjunct2, THEN conjunct1] u by (simp add: s)
  have "(6 :: nat) \<le> 53" by simp
  with t [THEN conjunct2, THEN conjunct2, THEN conjunct2, THEN conjunct2, THEN conjunct2] s
  have "ring_buffer_utilization (Some rb) =
          Finite (of_int ((uint (write_pos rb) - uint (read_pos rb)) mod uint (size_rb rb)) /
                  of_int (uint (size_rb rb)))"
    by blast
  then have x: "ring_buffer_utilization (Some rb) = Finite (1 / 2)"
    by (simp add: s w r)
  from a u f x s show ?thesis
    unfolding rb_def [symmetric] by (simp add: s w r)
qed

subsection \<open>Backpressure\<close>

lemma threshold_test:
  fixes u :: nat
  assumes "e \<le> 53"
  shows "double_ge (Finite (of_nat u / 2 ^ e)) RING_BUFFER_BACKPRESSURE_THRESHOLD
           \<longleftrightarrow> 4 * 2 ^ e \<le> 5 * u"
proof -
  define K :: nat where "K = 2 ^ (53 - e)"
  define t where "t = u * K"
  have NK: "(2::nat) ^ e * K = 2 ^ 53" unfolding K_def power_add[symmetric] using assms by simp
  have Kpos: "0 < K" by (simp add: K_def)
  have "double_ge (Finite (of_nat u / 2 ^ e)) RING_BUFFER_BACKPRESSURE_THRESHOLD
          \<longleftrightarrow> (7205759403792794 / 2 ^ 53 :: rat) \<le> of_nat u / 2 ^ e"
    by (simp add: RING_BUFFER_BACKPRESSURE_THRESHOLD_def threshold_value)
  also have "\<dots> \<longleftrightarrow> (7205759403792794 :: rat) * 2 ^ e \<le> of_nat u * 2 ^ 53"
    by (simp add: field_simps)
  also have "\<dots> \<longleftrightarrow> (7205759403792794 :: nat) * 2 ^ e \<le> u * 2 ^ 53"
  proof -
    have "(7205759403792794 :: rat) * 2 ^ e = of_nat (7205759403792794 * 2 ^ e)" by simp
    moreover have "(of_nat u :: rat) * 2 ^ 53 = of_nat (u * 2 ^ 53)" by simp
    ultimately show ?thesis by (simp only: of_nat_le_iff)
  qed
  also have "\<dots> \<longleftrightarrow> (7205759403792794 * 2 ^ e) * K \<le> (u * 2 ^ 53) * K"
    using Kpos by simp
  also have "(7205759403792794 * 2 ^ e) * K = 7205759403792794 * 2 ^ 53"
    using NK by (simp add: mult.assoc)
  also have "(u * 2 ^ 53) * K = 2 ^ 53 * t" by (simp add: t_def ac_simps)
  also have "(7205759403792794 * 2 ^ 53 \<le> 2 ^ 53 * t) \<longleftrightarrow> 7205759403792794 \<le> t" by simp
  also have "\<dots> \<longleftrightarrow> 4 * 2 ^ 53 \<le> 5 * t" by auto
  also have "4 * 2 ^ 53 = (4 * 2 ^ e) * K" using NK by (simp add: mult.assoc)
  also have "5 * t = (5 * u) * K" by (simp add: t_def ac_simps)
  also have "((4 * 2 ^ e) * K \<le> (5 * u) * K) \<longleftrightarrow> 4 * 2 ^ e \<le> 5 * u" using Kpos by simp
  finally show ?thesis .
qed

lemma used_less_size:
  assumes "ring_buffer_validate (Some rb)"
  shows "unat (utilization_used rb) < unat (size_rb rb)"
proof -
  note v = validate_facts[OF assms]
  have "uint (utilization_used rb) =
          (uint (write_pos rb) - uint (read_pos rb)) mod uint (size_rb rb)"
    using v(4,5) by (rule used_uint)
  moreover have "0 < uint (size_rb rb)" using v(4) by (simp add: word_less_def) (smt (verit) uint_ge_0)
  ultimately have "uint (utilization_used rb) < uint (size_rb rb)" by simp
  then show ?thesis by (simp add: word_less_def [symmetric] word_less_nat_alt [symmetric])
qed

lemma utilization_test:
  assumes v: "ring_buffer_validate (Some rb)" and N: "size_rb rb = 2 ^ e" and e53: "e \<le> 53"
  shows "double_ge (ring_buffer_utilization (Some rb)) RING_BUFFER_BACKPRESSURE_THRESHOLD \<longleftrightarrow>
           4 * 2 ^ e \<le> 5 * unat (utilization_used rb)"
proof -
  have e: "e < 64" using e53 by simp
  have uN: "unat (size_rb rb) = 2 ^ e" using N unat_exp[OF e] by simp
  have "(2::nat) ^ e \<le> 2 ^ 53" using e53 by (intro power_increasing) auto
  then have small: "unat (size_rb rb) \<le> 2 ^ 53" using uN by simp
  define U where "U = unat (utilization_used rb)"
  have "U < 2 ^ 53" using used_less_size[OF v] small by (simp add: U_def)
  then have "unat (utilization_used rb) < 2 ^ 53" by (simp add: U_def)
  from utilization_exact_pow[OF e N this]
  have "ring_buffer_utilization (Some rb) = Finite (of_nat U / 2 ^ e)"
    by (simp only: U_def)
  then show ?thesis using threshold_test[OF e53, of U] by (simp add: U_def[symmetric])
qed

lemma write_backpressure_flag:
  assumes "ring_buffer_validate (Some rb)" and "sz \<noteq> 0" and "sz \<le> RING_BUFFER_MAX_MESSAGE_SIZE"
  shows "ring_buffer_is_backpressure (snd (ring_buffer_write (Some rb) (Some bytes) sz now))
           \<longleftrightarrow> double_ge (ring_buffer_utilization (Some rb)) (backpressure_threshold rb)"
proof (cases "write_reserve rb sz")
  case (Inl a)
  then show ?thesis using assms
    by (auto simp: ring_buffer_write_def write_reserve_def Let_def ring_buffer_is_backpressure_def
        not_less split: if_splits)
next
  case (Inr t)
  obtain rb' wp nwp where t: "t = (rb', wp, nwp)" by (cases t)
  note r = write_reserve_Inr[OF Inr[unfolded t]]
  have ok: "fst (write_frame rb' wp bytes sz now)"
    unfolding r(7) r(5) by (rule write_frame_ok[OF r(1,2,4)])
  from validate_facts(2)[OF r(1)] obtain m where m: "buffer rb = Region m" by blast
  have keep: "backpressure (snd (arena_copy_in x pos src n)) = backpressure x" for x pos src n
    by (auto simp: arena_copy_in_def Let_def split: option.splits)
  have "backpressure (snd (write_frame rb' wp bytes sz now)) = backpressure rb'"
    by (auto simp: write_frame_def Let_def keep split: prod.splits bool.splits)
      (metis keep snd_conv)+
  then have "\<not> backpressure (snd (write_frame rb' wp bytes sz now))" by (simp add: r(7))
  then show ?thesis using ok Inr t r(3) assms(2)
    by (auto simp: ring_buffer_write_def ring_buffer_is_backpressure_def write_commit_def
        split: prod.splits bool.splits)
qed

lemma used_nat:
  assumes "write_pos rb < size_rb rb" and "read_pos rb < size_rb rb"
  shows "int (unat (utilization_used rb)) =
           (uint (write_pos rb) - uint (read_pos rb)) mod uint (size_rb rb)"
  using used_uint[OF assms] by simp

lemma exponent_53: "exponent 14411518807585587 = 53"
proof -
  have b: "pow2 (exponent 14411518807585587) \<le> 14411518807585587"
    "(14411518807585587 :: rat) < pow2 (exponent 14411518807585587 + 1)"
    using exponent_bounds[of 14411518807585587] by simp_all
  have "pow2 53 \<le> (14411518807585587 :: rat)" by (simp add: pow2_def)
  with b(2) have "pow2 53 < pow2 (exponent 14411518807585587 + 1)" by simp
  then have 1: "53 < exponent 14411518807585587 + 1" by (simp only: pow2_less_iff)
  have "(14411518807585587 :: rat) < pow2 54" by (simp add: pow2_def)
  with b(1) have "pow2 (exponent 14411518807585587) < pow2 54" by simp
  then have 2: "exponent 14411518807585587 < 54" by (simp only: pow2_less_iff)
  from 1 2 show ?thesis by simp
qed

lemma round_up_at_2p54: "round_double 14411518807585587 = 14411518807585588"
proof -
  have fl: "\<lfloor>(14411518807585587 :: rat) / 2\<rfloor> = 7205759403792793"
    by (rule floor_unique) simp_all
  have "round_half_even (14411518807585587 / 2) = 7205759403792794"
    by (simp add: round_half_even_def Let_def fl)
  then show ?thesis
    by (simp add: round_double_def exponent_53 Let_def pow2_def)
qed

text \<open>
  C4, as the code has it. \<open>ring_buffer_write\<close> makes three checks before the test. A
  null arena, null data or a size of 0 returns \<open>RING_BUFFER_ERROR_INVALID_PARAM\<close> and
  changes nothing; a descriptor that does not validate returns
  \<open>RING_BUFFER_ERROR_CORRUPTED\<close>, and a size above 16 MiB on a descriptor that validates
  returns \<open>RING_BUFFER_ERROR_TOO_LARGE\<close>, each changing \<open>write_errors\<close> only. For a
  call that passes the three checks, on a descriptor with the threshold that
  \<open>ring_buffer_create\<close> stores: when the utilization at entry reaches the threshold,
  \<open>ring_buffer_write\<close> returns \<open>RING_BUFFER_ERROR_BACKPRESSURE\<close> and the descriptor
  differs from the one before only in the flag, now set, and in \<open>backpressure_events\<close>,
  incremented by one; in every case \<open>ring_buffer_is_backpressure\<close> after the call is
  the outcome of that test. The test compares doubles: for capacities \<open>N\<close> up to
  \<open>2^53\<close> bytes it holds exactly when \<open>4 N \<le> 5 used\<close>, that is \<open>used / N \<ge> 4/5\<close>,
  with \<open>used = (write_pos - read_pos) mod N\<close>.
\<close>

theorem backpressure_gate:
  "(ring_buffer_validate (Some rb) \<and> sz \<noteq> 0 \<and> sz \<le> RING_BUFFER_MAX_MESSAGE_SIZE \<and>
    backpressure_threshold rb = RING_BUFFER_BACKPRESSURE_THRESHOLD \<longrightarrow>
      (double_ge (ring_buffer_utilization (Some rb)) RING_BUFFER_BACKPRESSURE_THRESHOLD \<longrightarrow>
         ring_buffer_write (Some rb) (Some bytes) sz now =
           (RING_BUFFER_ERROR_BACKPRESSURE,
            Some (rb\<lparr>backpressure := True,
                      backpressure_events := backpressure_events rb + 1\<rparr>))) \<and>
      (ring_buffer_is_backpressure (snd (ring_buffer_write (Some rb) (Some bytes) sz now)) \<longleftrightarrow>
         double_ge (ring_buffer_utilization (Some rb)) RING_BUFFER_BACKPRESSURE_THRESHOLD) \<and>
      (unat (size_rb rb) \<le> 2 ^ 53 \<longrightarrow>
         (double_ge (ring_buffer_utilization (Some rb)) RING_BUFFER_BACKPRESSURE_THRESHOLD \<longleftrightarrow>
            4 * uint (size_rb rb) \<le>
              5 * ((uint (write_pos rb) - uint (read_pos rb)) mod uint (size_rb rb))))) \<and>
   ring_buffer_write None data_ptr sz now = (RING_BUFFER_ERROR_INVALID_PARAM, None) \<and>
   ring_buffer_write (Some rb) None sz now = (RING_BUFFER_ERROR_INVALID_PARAM, Some rb) \<and>
   ring_buffer_write (Some rb) (Some bytes) 0 now = (RING_BUFFER_ERROR_INVALID_PARAM, Some rb) \<and>
   (sz \<noteq> 0 \<and> \<not> ring_buffer_validate (Some rb) \<longrightarrow>
      ring_buffer_write (Some rb) (Some bytes) sz now =
        (RING_BUFFER_ERROR_CORRUPTED, Some (rb\<lparr>write_errors := write_errors rb + 1\<rparr>))) \<and>
   (ring_buffer_validate (Some rb) \<and> RING_BUFFER_MAX_MESSAGE_SIZE < sz \<longrightarrow>
      ring_buffer_write (Some rb) (Some bytes) sz now =
        (RING_BUFFER_ERROR_TOO_LARGE, Some (rb\<lparr>write_errors := write_errors rb + 1\<rparr>)))"
proof (intro conjI impI)
  assume a: "ring_buffer_validate (Some rb) \<and> sz \<noteq> 0 \<and> sz \<le> RING_BUFFER_MAX_MESSAGE_SIZE \<and>
    backpressure_threshold rb = RING_BUFFER_BACKPRESSURE_THRESHOLD"
    and "double_ge (ring_buffer_utilization (Some rb)) RING_BUFFER_BACKPRESSURE_THRESHOLD"
  then show "ring_buffer_write (Some rb) (Some bytes) sz now =
              (RING_BUFFER_ERROR_BACKPRESSURE,
               Some (rb\<lparr>backpressure := True,
                         backpressure_events := backpressure_events rb + 1\<rparr>))"
    by (simp add: ring_buffer_write_def write_reserve_def not_less)
next
  assume a: "ring_buffer_validate (Some rb) \<and> sz \<noteq> 0 \<and> sz \<le> RING_BUFFER_MAX_MESSAGE_SIZE \<and>
    backpressure_threshold rb = RING_BUFFER_BACKPRESSURE_THRESHOLD"
  then show "ring_buffer_is_backpressure (snd (ring_buffer_write (Some rb) (Some bytes) sz now)) \<longleftrightarrow>
            double_ge (ring_buffer_utilization (Some rb)) RING_BUFFER_BACKPRESSURE_THRESHOLD"
    using write_backpressure_flag[of rb sz bytes now] by simp
next
  assume a: "ring_buffer_validate (Some rb) \<and> sz \<noteq> 0 \<and> sz \<le> RING_BUFFER_MAX_MESSAGE_SIZE \<and>
    backpressure_threshold rb = RING_BUFFER_BACKPRESSURE_THRESHOLD"
    and small: "unat (size_rb rb) \<le> 2 ^ 53"
  then have v: "ring_buffer_validate (Some rb)" by simp
  note f = validate_facts[OF v]
  from f(3) obtain e where e: "e < 64" "size_rb rb = 2 ^ e" by blast
  have N: "unat (size_rb rb) = 2 ^ e" using e unat_exp by simp
  then have "(2::nat) ^ e \<le> 2 ^ 53" using small by simp
  then have e53: "e \<le> 53" by (rule power_le_imp_le_exp[rotated]) simp
  have "double_ge (ring_buffer_utilization (Some rb)) RING_BUFFER_BACKPRESSURE_THRESHOLD \<longleftrightarrow>
          4 * unat (size_rb rb) \<le> 5 * unat (utilization_used rb)"
    using utilization_test[OF v e(2) e53] by (simp add: N)
  also have "\<dots> \<longleftrightarrow> 4 * int (unat (size_rb rb)) \<le> 5 * int (unat (utilization_used rb))"
    by linarith
  also have "\<dots> \<longleftrightarrow> 4 * uint (size_rb rb) \<le>
              5 * ((uint (write_pos rb) - uint (read_pos rb)) mod uint (size_rb rb))"
    unfolding used_nat[OF f(4,5)] by simp
  finally show "double_ge (ring_buffer_utilization (Some rb)) RING_BUFFER_BACKPRESSURE_THRESHOLD \<longleftrightarrow>
            4 * uint (size_rb rb) \<le>
              5 * ((uint (write_pos rb) - uint (read_pos rb)) mod uint (size_rb rb))" .
next
  show "ring_buffer_write None data_ptr sz now = (RING_BUFFER_ERROR_INVALID_PARAM, None)"
    by (simp add: ring_buffer_write_def)
  show "ring_buffer_write (Some rb) None sz now = (RING_BUFFER_ERROR_INVALID_PARAM, Some rb)"
    by (simp add: ring_buffer_write_def)
  show "ring_buffer_write (Some rb) (Some bytes) 0 now = (RING_BUFFER_ERROR_INVALID_PARAM, Some rb)"
    by (simp add: ring_buffer_write_def)
next
  assume "sz \<noteq> 0 \<and> \<not> ring_buffer_validate (Some rb)"
  then show "ring_buffer_write (Some rb) (Some bytes) sz now =
        (RING_BUFFER_ERROR_CORRUPTED, Some (rb\<lparr>write_errors := write_errors rb + 1\<rparr>))"
    by (simp add: ring_buffer_write_def write_reserve_def)
next
  assume a: "ring_buffer_validate (Some rb) \<and> RING_BUFFER_MAX_MESSAGE_SIZE < sz"
  then have "sz \<noteq> 0" by auto
  with a show "ring_buffer_write (Some rb) (Some bytes) sz now =
        (RING_BUFFER_ERROR_TOO_LARGE, Some (rb\<lparr>write_errors := write_errors rb + 1\<rparr>))"
    by (simp add: ring_buffer_write_def write_reserve_def)
qed

theorem backpressure_gate_witness:
  "ring_buffer_validate (Some (new_descriptor 64\<lparr>write_pos := 56, commit_pos := 56\<rparr>)) \<and>
   ring_buffer_write (Some (new_descriptor 64\<lparr>write_pos := 56, commit_pos := 56\<rparr>))
      (Some [0x61]) 1 0 =
     (RING_BUFFER_ERROR_BACKPRESSURE,
      Some (new_descriptor 64\<lparr>write_pos := 56, commit_pos := 56, backpressure := True,
                                backpressure_events := 1\<rparr>)) \<and>
   \<not> ring_buffer_validate (Some (new_descriptor 64\<lparr>magic := 0\<rparr>)) \<and>
   ring_buffer_write (Some (new_descriptor 64\<lparr>magic := 0\<rparr>)) (Some [0x61]) 1 0 =
     (RING_BUFFER_ERROR_CORRUPTED, Some (new_descriptor 64\<lparr>magic := 0, write_errors := 1\<rparr>)) \<and>
   ring_buffer_write (Some (new_descriptor 64)) (Some [0x61]) (16 * 1024 * 1024 + 1) 0 =
     (RING_BUFFER_ERROR_TOO_LARGE, Some (new_descriptor 64\<lparr>write_errors := 1\<rparr>))"
proof -
  have v: "ring_buffer_validate (Some (new_descriptor 64\<lparr>write_pos := 56, commit_pos := 56\<rparr>))"
    by (simp add: ring_buffer_validate_def new_descriptor_def RING_BUFFER_MAGIC_def)
  have v0: "ring_buffer_validate (Some (new_descriptor 64))"
    by (simp add: ring_buffer_validate_def new_descriptor_def RING_BUFFER_MAGIC_def)
  have nv: "\<not> ring_buffer_validate (Some (new_descriptor 64\<lparr>magic := 0\<rparr>))"
    by (simp add: ring_buffer_validate_def new_descriptor_def RING_BUFFER_MAGIC_def)
  have m: "(1::size_t) \<le> RING_BUFFER_MAX_MESSAGE_SIZE"
    "RING_BUFFER_MAX_MESSAGE_SIZE < (16 * 1024 * 1024 + 1 :: size_t)"
    by (simp_all add: RING_BUFFER_MAX_MESSAGE_SIZE_def)
  have t: "backpressure_threshold (new_descriptor 64\<lparr>write_pos := 56, commit_pos := 56\<rparr>) =
      RING_BUFFER_BACKPRESSURE_THRESHOLD" by (simp add: new_descriptor_def)
  have 1: "ring_buffer_write (Some (new_descriptor 64\<lparr>write_pos := 56, commit_pos := 56\<rparr>))
      (Some [0x61]) 1 0 =
     (RING_BUFFER_ERROR_BACKPRESSURE,
      Some (new_descriptor 64\<lparr>write_pos := 56, commit_pos := 56, backpressure := True,
                                backpressure_events := 1\<rparr>))"
    using backpressure_gate [of "new_descriptor 64\<lparr>write_pos := 56, commit_pos := 56\<rparr>" 1
        "[0x61]" 0] v m(1) t
    by (simp add: new_descriptor_def)
  have 2: "ring_buffer_write (Some (new_descriptor 64\<lparr>magic := 0\<rparr>)) (Some [0x61]) 1 0 =
     (RING_BUFFER_ERROR_CORRUPTED, Some (new_descriptor 64\<lparr>magic := 0, write_errors := 1\<rparr>))"
    using backpressure_gate [of "new_descriptor 64\<lparr>magic := 0\<rparr>" 1 "[0x61]" 0] nv
    by (simp add: new_descriptor_def)
  have 3: "ring_buffer_write (Some (new_descriptor 64)) (Some [0x61]) (16 * 1024 * 1024 + 1) 0 =
     (RING_BUFFER_ERROR_TOO_LARGE, Some (new_descriptor 64\<lparr>write_errors := 1\<rparr>))"
    using backpressure_gate [of "new_descriptor 64" "16 * 1024 * 1024 + 1" "[0x61]" 0] v0 m(2)
    by (simp add: new_descriptor_def)
  from v nv 1 2 3 show ?thesis by simp
qed

text \<open>
  C4, as stated, fails in two ways. The size check comes before the test: in an arena
  of 64 bytes that holds 56, a write of 16 MiB + 1 bytes meets a utilization above the
  threshold and returns \<open>RING_BUFFER_ERROR_TOO_LARGE\<close>; it counts a write error, and
  the flag and \<open>backpressure_events\<close> stay as they were. And the test is made on
  doubles: in an arena of \<open>2^54\<close> bytes that holds 14411518807585587, \<open>used / N\<close> is
  below \<open>4/5\<close>, the conversion of \<open>used\<close> to double rounds up to 14411518807585588, and
  a write of one byte returns \<open>RING_BUFFER_ERROR_BACKPRESSURE\<close> with the flag set.
\<close>

theorem backpressure_gate_counterexample:
  "double_ge
     (ring_buffer_utilization (Some (new_descriptor 64\<lparr>write_pos := 56, commit_pos := 56\<rparr>)))
     RING_BUFFER_BACKPRESSURE_THRESHOLD \<and>
   ring_buffer_write (Some (new_descriptor 64\<lparr>write_pos := 56, commit_pos := 56\<rparr>))
      (Some (replicate 16777217 0x61)) (16 * 1024 * 1024 + 1) 0 =
     (RING_BUFFER_ERROR_TOO_LARGE,
      Some (new_descriptor 64\<lparr>write_pos := 56, commit_pos := 56, write_errors := 1\<rparr>)) \<and>
   \<not> 4 * uint (18014398509481984 :: size_t) \<le>
       5 * ((uint (14411518807585587 :: size_t) - uint (0 :: size_t)) mod
              uint (18014398509481984 :: size_t)) \<and>
   ring_buffer_write
      (Some (new_descriptor 18014398509481984
               \<lparr>write_pos := 14411518807585587, commit_pos := 14411518807585587\<rparr>))
      (Some [0x61]) 1 0 =
     (RING_BUFFER_ERROR_BACKPRESSURE,
      Some (new_descriptor 18014398509481984
              \<lparr>write_pos := 14411518807585587, commit_pos := 14411518807585587,
               backpressure := True, backpressure_events := 1\<rparr>))"
proof -
  have v: "ring_buffer_validate (Some (new_descriptor 64\<lparr>write_pos := 56, commit_pos := 56\<rparr>))"
    by (simp add: ring_buffer_validate_def new_descriptor_def RING_BUFFER_MAGIC_def)
  have a: "double_ge
     (ring_buffer_utilization (Some (new_descriptor 64\<lparr>write_pos := 56, commit_pos := 56\<rparr>)))
     RING_BUFFER_BACKPRESSURE_THRESHOLD"
    using utilization_test[OF v, of 6] by (simp add: new_descriptor_def utilization_used_def)
  have b: "ring_buffer_write (Some (new_descriptor 64\<lparr>write_pos := 56, commit_pos := 56\<rparr>))
      (Some (replicate 16777217 0x61)) (16 * 1024 * 1024 + 1) 0 =
     (RING_BUFFER_ERROR_TOO_LARGE,
      Some (new_descriptor 64\<lparr>write_pos := 56, commit_pos := 56, write_errors := 1\<rparr>))"
    using v by (simp add: ring_buffer_write_def write_reserve_def RING_BUFFER_MAX_MESSAGE_SIZE_def)
      (simp add: new_descriptor_def)
  have c: "\<not> 4 * uint (18014398509481984 :: size_t) \<le>
       5 * ((uint (14411518807585587 :: size_t) - uint (0 :: size_t)) mod
              uint (18014398509481984 :: size_t))"
    by simp
  define big where "big = new_descriptor 18014398509481984
               \<lparr>write_pos := 14411518807585587, commit_pos := 14411518807585587\<rparr>"
  have p: "(18014398509481984 :: size_t) = 2 ^ 54" by simp
  have vb: "ring_buffer_validate (Some big)"
    using power_of_two_and[of 54]
    by (simp add: big_def ring_buffer_validate_def new_descriptor_def RING_BUFFER_MAGIC_def)
  have u: "double_of_size_t (utilization_used big) = Finite 14411518807585588"
    by (simp add: big_def new_descriptor_def utilization_used_def double_of_size_t_def
        round_up_at_2p54)
  have n: "double_of_size_t (size_rb big) = Finite (2 ^ 54)"
    using double_of_size_power[of 54] by (simp add: big_def new_descriptor_def)
  have q: "round_double (3602879701896397 / 4503599627370496) =
      3602879701896397 / 4503599627370496"
    using round_double_exact[of 3602879701896397 52] by simp
  have "ring_buffer_utilization (Some big) = Finite (3602879701896397 / 2 ^ 52)"
    by (simp add: ring_buffer_utilization_def u n q)
  then have t: "double_ge (ring_buffer_utilization (Some big)) (backpressure_threshold big)"
    by (simp add: big_def new_descriptor_def RING_BUFFER_BACKPRESSURE_THRESHOLD_def
        threshold_value)
  have d: "ring_buffer_write (Some big) (Some [0x61]) 1 0 =
     (RING_BUFFER_ERROR_BACKPRESSURE,
      Some (big\<lparr>backpressure := True, backpressure_events := backpressure_events big + 1\<rparr>))"
    using vb t by (simp add: ring_buffer_write_def write_reserve_def RING_BUFFER_MAX_MESSAGE_SIZE_def)
  have "ring_buffer_write
      (Some (new_descriptor 18014398509481984
               \<lparr>write_pos := 14411518807585587, commit_pos := 14411518807585587\<rparr>))
      (Some [0x61]) 1 0 =
     (RING_BUFFER_ERROR_BACKPRESSURE,
      Some (new_descriptor 18014398509481984
              \<lparr>write_pos := 14411518807585587, commit_pos := 14411518807585587,
               backpressure := True, backpressure_events := 1\<rparr>))"
    using d by (simp add: big_def new_descriptor_def)
  with a b c show ?thesis by blast
qed

subsection \<open>Write and read on a fresh arena\<close>

lemma npo2_power:
  assumes n0: "n \<noteq> 0"
  shows "ring_buffer_next_power_of_2 n = 0 \<or> (\<exists>e<64. ring_buffer_next_power_of_2 n = 2 ^ e)"
proof (cases "unat n \<le> 2 ^ 63")
  case True
  from npo2_least[OF n0 True] show ?thesis by blast
next
  case False
  obtain r where res: "ring_buffer_next_power_of_2 n = r + 1"
    and rbits: "\<And>i. bit r i \<longleftrightarrow> (\<exists>j. i \<le> j \<and> bit (n - 1) j)"
    using npo2_smear[OF n0] by blast
  have "unat (n - 1) = unat n - 1" using n0 by (simp add: unat_minus_one)
  then have lo: "2 ^ 63 \<le> unat (n - 1)" using False by simp
  have hi: "unat (n - 1) < 2 ^ Suc 63" using unsigned_less[of "n - 1"] by simp
  have "bit (unat (n - 1)) 63" using lo hi by (rule nat_bit_top)
  then have b: "bit (n - 1) 63" by (simp add: bit_unsigned_iff)
  have "r = - 1"
  proof (rule bit_word_eqI)
    fix i assume "i < LENGTH(64)"
    then have "i \<le> 63" by simp
    with b have "bit r i" unfolding rbits by blast
    then show "bit r i \<longleftrightarrow> bit (- 1 :: 64 word) i" using \<open>i < LENGTH(64)\<close> by simp
  qed
  then show ?thesis using res by simp
qed

lemma create_fresh:
  assumes "ring_buffer_create env k = Some rb"
  shows "rb = new_descriptor (size_rb rb)"
    and "size_rb rb = 0 \<or> (\<exists>e<64. size_rb rb = 2 ^ e)"
proof -
  define n where "n = (if k = 0 then RING_BUFFER_DEFAULT_SIZE else k)"
  have n0: "n \<noteq> 0" by (simp add: n_def RING_BUFFER_DEFAULT_SIZE_def)
  from assms have rb: "rb = new_descriptor (ring_buffer_next_power_of_2 n)"
    by (auto simp: ring_buffer_create_def Let_def n_def split: if_splits)
  then have sz: "size_rb rb = ring_buffer_next_power_of_2 n" by (simp add: new_descriptor_def)
  show "rb = new_descriptor (size_rb rb)" using rb sz by simp
  show "size_rb rb = 0 \<or> (\<exists>e<64. size_rb rb = 2 ^ e)" unfolding sz by (rule npo2_power[OF n0])
qed

lemma validate_new_descriptor:
  assumes "e < 64"
  shows "ring_buffer_validate (Some (new_descriptor (2 ^ e)))"
proof -
  have "(0::64 word) < 2 ^ e" using unat_exp[OF assms] by (simp add: word_less_nat_alt)
  then show ?thesis using assms
    by (simp add: ring_buffer_validate_def new_descriptor_def power_of_two_and[OF assms]
        RING_BUFFER_MAGIC_def)
qed

lemma mem_read_write_same:
  assumes "off + length bs \<le> length m"
  shows "mem_read (mem_write m off bs) off (length bs) = bs"
  using assms by (simp add: mem_read_def mem_write_def)

lemma mem_read_write_before:
  assumes "off' + n \<le> off" and "off \<le> length m"
  shows "mem_read (mem_write m off bs) off' n = mem_read m off' n"
proof -
  have "mem_read (mem_write m off bs) off' n = take n (drop off' (take off m))"
    unfolding mem_read_def mem_write_def using assms by simp
  also have "\<dots> = take n (take (off - off') (drop off' m))" by (simp only: drop_take)
  also have "\<dots> = take n (drop off' m)" using assms by (simp add: min_absorb1)
  finally show ?thesis by (simp add: mem_read_def)
qed

lemma length_le_bytes: "length (le_bytes n w) = n"
  by (induction n arbitrary: w) simp_all

lemma le_word_le_bytes: "le_word (le_bytes n w) = (take_bit (8 * n) w :: 'a::len word)"
proof (induction n arbitrary: w)
  case 0
  then show ?case by simp
next
  case (Suc n)
  have "le_word (le_bytes (Suc n) w) =
          (ucast (ucast w :: 8 word) OR push_bit 8 (take_bit (8 * n) (drop_bit 8 w)) :: 'a word)"
    by (simp add: Suc.IH)
  also have "\<dots> = take_bit (8 * Suc n) w"
    by (rule bit_word_eqI) (auto simp: bit_simps)
  finally show ?case .
qed

lemma length_header_bytes: "length (header_bytes h) = 24"
  by (simp add: header_bytes_def length_le_bytes)

lemma header_of_header_bytes: "header_of_bytes (header_bytes h) = h"
  by (simp add: header_of_bytes_def header_bytes_def mem_read_def length_le_bytes
      le_word_le_bytes take_bit_word_eq_self)

lemma arena_copy_in_fit:
  assumes "buffer rb = Region m" and "pos + n \<le> size_rb rb" and "\<not> size_rb rb - pos < n"
  shows "arena_copy_in rb pos (Some bs) n =
           (True, rb\<lparr>buffer := Region (mem_write m (unat pos) (take (unat n) bs))\<rparr>)"
  using assms by (simp add: arena_copy_in_def safe_memcpy_def)

lemma threshold_positive:
  "\<not> double_ge (Finite 0) RING_BUFFER_BACKPRESSURE_THRESHOLD"
  by (simp add: RING_BUFFER_BACKPRESSURE_THRESHOLD_def threshold_value)

lemma ucast_length_back:
  fixes sz :: "64 word"
  assumes "sz \<le> RING_BUFFER_MAX_MESSAGE_SIZE"
  shows "(ucast (ucast sz :: 32 word) :: 64 word) = sz"
proof -
  have "unat sz \<le> 16777216"
    using assms by (simp add: RING_BUFFER_MAX_MESSAGE_SIZE_def word_le_nat_alt)
  then have "unat sz < 2 ^ 32" by simp
  then have "take_bit 32 sz = sz"
    by (metis take_bit_nat_eq_self unsigned_take_bit_eq word_unat_eq_iff)
  moreover have "(ucast (ucast sz :: 32 word) :: 64 word) = take_bit 32 sz"
    by (rule bit_word_eqI) (auto simp: bit_simps)
  ultimately show ?thesis by simp
qed

text \<open>The frame that a write stores.\<close>

lemma fresh_write:
  fixes p :: "u8 list" and now :: u64
  assumes e: "e < 64" and n1: "1 \<le> length p" and n2: "length p \<le> 16 * 1024 * 1024"
    and fit: "unat (total_message_size (of_nat (length p))) < unat (2 ^ e :: 64 word)"
  defines "sz \<equiv> (of_nat (length p) :: 64 word)"
  defines "hdr \<equiv> \<lparr>h_magic = ARROW_IPC_MAGIC, h_length = ucast sz, h_timestamp = now,
                    h_checksum = ring_buffer_crc32 p sz, h_reserved = 0\<rparr>"
  shows "ring_buffer_write (Some (new_descriptor (2 ^ e))) (Some p) sz now =
          (RING_BUFFER_SUCCESS,
           Some ((new_descriptor (2 ^ e))
             \<lparr>buffer := Region (mem_write (mem_write (replicate (unat (2 ^ e :: 64 word)) 0) 0
                                  (header_bytes hdr)) 24 p),
              write_pos := total_message_size sz,
              commit_pos := total_message_size sz,
              messages_written := 1,
              bytes_written := sz\<rparr>))"
proof -
  define N :: "64 word" where "N = 2 ^ e"
  define T where "T = total_message_size sz"
  define nd where "nd = new_descriptor N"
  have usz: "unat sz = length p"
  proof -
    have "length p < 2 ^ 64" using n2 by simp
    then show ?thesis by (simp add: sz_def unat_of_nat)
  qed
  have sz0: "sz \<noteq> 0" using usz n1 by (metis not_one_le_zero unat_0)
  have mx: "sz \<le> RING_BUFFER_MAX_MESSAGE_SIZE"
    using usz n2 by (simp add: RING_BUFFER_MAX_MESSAGE_SIZE_def word_le_nat_alt)
  have TN: "unat T < unat N" using fit by (simp add: T_def sz_def N_def)
  note tb = total_message_size_bounds[OF mx, folded T_def]
  have T24: "length p + 24 \<le> unat T" using tb(1) usz by simp
  have v: "ring_buffer_validate (Some nd)" unfolding nd_def N_def
    by (rule validate_new_descriptor[OF e])
  have used0: "utilization_used nd = 0" by (simp add: utilization_used_def nd_def new_descriptor_def)
  have "ring_buffer_utilization (Some nd) = Finite 0"
    using utilization_exact[OF v] by (simp add: used0)
  then have nobp: "\<not> double_ge (ring_buffer_utilization (Some nd)) (backpressure_threshold nd)"
    using threshold_positive by (simp add: nd_def new_descriptor_def)
  have N0: "N \<noteq> 0" using TN by (metis not_less_zero unat_0)
  have uN1: "unat (N - 1) = unat N - 1" using N0 by (simp add: unat_minus_one)
  have room: "\<not> N - 1 < T" using TN by (simp add: word_less_nat_alt uN1)
  have TltN: "T < N" using TN by (simp add: word_less_nat_alt)
  have Tmask: "T AND (N - 1) = T" unfolding N_def by (rule and_size_mask[OF e TltN[unfolded N_def]])
  have res: "write_reserve nd sz = Inr (nd\<lparr>backpressure := False, write_pos := T\<rparr>, 0, T)"
    using v mx nobp room
    by (simp add: write_reserve_def Let_def T_def[symmetric] ring_buffer_available_write_def
        Tmask[unfolded N_def] nd_def[symmetric])
      (simp add: nd_def new_descriptor_def Tmask)
  define rb1 where "rb1 = nd\<lparr>backpressure := False, write_pos := T\<rparr>"
  have b1: "buffer rb1 = Region (replicate (unat N) 0)" and s1: "size_rb rb1 = N"
    by (simp_all add: rb1_def nd_def new_descriptor_def)
  have u24: "unat (24 :: 64 word) = 24" by simp
  have h1: "(0::64 word) + sizeof_header \<le> size_rb rb1"
    using T24 TN by (simp add: s1 sizeof_header_def word_le_nat_alt)
  have h2: "\<not> size_rb rb1 - 0 < sizeof_header"
    using T24 TN by (simp add: s1 sizeof_header_def word_less_nat_alt)
  have c1: "arena_copy_in rb1 0 (Some (header_bytes hdr)) sizeof_header =
      (True, rb1\<lparr>buffer := Region (mem_write (replicate (unat N) 0) 0 (header_bytes hdr))\<rparr>)"
    using arena_copy_in_fit[OF b1 h1 h2, of "header_bytes hdr"]
    by (simp add: sizeof_header_def length_header_bytes)
  define m1 where "m1 = mem_write (replicate (unat N) 0) 0 (header_bytes hdr)"
  define rb2 where "rb2 = rb1\<lparr>buffer := Region m1\<rparr>"
  have b2: "buffer rb2 = Region m1" and s2: "size_rb rb2 = N" by (simp_all add: rb2_def s1)
  have lt24: "(24 :: 64 word) < N" using T24 TN by (simp add: word_less_nat_alt)
  have ds: "sizeof_header AND (size_rb rb2 - 1) = 24"
    using and_size_mask[OF e lt24[unfolded N_def]] by (simp add: s2 sizeof_header_def N_def)
  have sum: "unat (24 + sz) = 24 + length p"
    using n2 usz by (simp add: unat_add_lem[THEN iffD1])
  have d1: "(24 :: 64 word) + sz \<le> size_rb rb2"
    using T24 TN by (simp add: s2 word_le_nat_alt sum)
  have sub: "unat (N - 24) = unat N - 24" using lt24 by (simp add: unat_sub)
  have d2: "\<not> size_rb rb2 - 24 < sz"
    using T24 TN by (simp add: s2 word_less_nat_alt sub usz)
  have c2: "arena_copy_in rb2 24 (Some p) sz = (True, rb2\<lparr>buffer := Region (mem_write m1 24 p)\<rparr>)"
    using arena_copy_in_fit[OF b2 d1 d2, of p] by (simp add: usz)
  have wf: "write_frame rb1 0 p sz now = (True, rb2\<lparr>buffer := Region (mem_write m1 24 p)\<rparr>)"
    unfolding write_frame_def Let_def hdr_def[symmetric] c1 m1_def[symmetric]
    by (simp add: rb2_def[symmetric] ds c2)
  have "ring_buffer_write (Some nd) (Some p) sz now =
          (RING_BUFFER_SUCCESS, Some (write_commit (rb2\<lparr>buffer := Region (mem_write m1 24 p)\<rparr>) T sz))"
    using sz0 by (simp add: ring_buffer_write_def res rb1_def[symmetric] wf)
  then show ?thesis
    by (simp add: write_commit_def rb2_def rb1_def nd_def new_descriptor_def m1_def T_def N_def)
qed

lemma mem_write_whole: "length bs = length obj \<Longrightarrow> mem_write obj 0 bs = bs"
  by (simp add: mem_write_def)

text \<open>The read that follows it.\<close>

lemma fresh_read:
  fixes p :: "u8 list" and now :: u64
  assumes e: "e < 64" and n1: "1 \<le> length p" and n2: "length p \<le> 16 * 1024 * 1024"
    and fit: "unat (total_message_size (of_nat (length p))) < unat (2 ^ e :: 64 word)"
  defines "sz \<equiv> (of_nat (length p) :: 64 word)"
  defines "hdr \<equiv> \<lparr>h_magic = ARROW_IPC_MAGIC, h_length = ucast sz, h_timestamp = now,
                    h_checksum = ring_buffer_crc32 p sz, h_reserved = 0\<rparr>"
  defines "rb1 \<equiv> (new_descriptor (2 ^ e))
             \<lparr>buffer := Region (mem_write (mem_write (replicate (unat (2 ^ e :: 64 word)) 0) 0
                                  (header_bytes hdr)) 24 p),
              write_pos := total_message_size sz,
              commit_pos := total_message_size sz,
              messages_written := 1,
              bytes_written := sz\<rparr>"
  shows "ring_buffer_read (Some rb1) (Some msg) =
          (RING_BUFFER_SUCCESS,
           Some (rb1\<lparr>read_pos := total_message_size sz, messages_read := 1, bytes_read := sz\<rparr>),
           Some (msg\<lparr>data := Some 24, data_size := sz, header := hdr\<rparr>))"
    and "mem_read (mem_write (mem_write (replicate (unat (2 ^ e :: 64 word)) 0) 0
                                  (header_bytes hdr)) 24 p) 24 (length p) = p"
proof -
  define N :: "64 word" where "N = 2 ^ e"
  define T where "T = total_message_size sz"
  define m0 :: "u8 list" where "m0 = replicate (unat N) 0"
  define m1 where "m1 = mem_write m0 0 (header_bytes hdr)"
  define m2 where "m2 = mem_write m1 24 p"
  have usz: "unat sz = length p"
  proof -
    have "length p < 2 ^ 64" using n2 by simp
    then show ?thesis by (simp add: sz_def unat_of_nat)
  qed
  have mx: "sz \<le> RING_BUFFER_MAX_MESSAGE_SIZE"
    using usz n2 by (simp add: RING_BUFFER_MAX_MESSAGE_SIZE_def word_le_nat_alt)
  have TN: "unat T < unat N" using fit by (simp add: T_def sz_def N_def)
  note tb = total_message_size_bounds[OF mx, folded T_def]
  have T24: "length p + 24 \<le> unat T" using tb(1) usz by simp
  have TltN: "T < N" using TN by (simp add: word_less_nat_alt)
  have Tmask: "T AND (N - 1) = T" unfolding N_def by (rule and_size_mask[OF e TltN[unfolded N_def]])
  have lt24: "(24 :: 64 word) < N" using T24 TN by (simp add: word_less_nat_alt)
  have mask24: "24 AND (N - 1) = 24" unfolding N_def by (rule and_size_mask[OF e lt24[unfolded N_def]])
  have l0: "length m0 = unat N" by (simp add: m0_def)
  have l1: "length m1 = unat N" by (simp add: m1_def length_mem_write l0)
  have l2: "length m2 = unat N" by (simp add: m2_def length_mem_write l1)
  have rd_h: "mem_read m2 0 24 = header_bytes hdr"
  proof -
    have "mem_read m2 0 24 = mem_read m1 0 24"
      unfolding m2_def using T24 TN by (intro mem_read_write_before) (simp_all add: l1)
    also have "\<dots> = header_bytes hdr"
      unfolding m1_def using mem_read_write_same[of 0 "header_bytes hdr" m0] T24 TN
      by (simp add: length_header_bytes l0)
    finally show ?thesis .
  qed
  have rd_p: "mem_read m2 24 (length p) = p"
    unfolding m2_def using T24 TN by (intro mem_read_write_same) (simp add: l1)
  show "mem_read (mem_write (mem_write (replicate (unat (2 ^ e :: 64 word)) 0) 0
                                  (header_bytes hdr)) 24 p) 24 (length p) = p"
    using rd_p by (simp add: m2_def m1_def m0_def N_def)
  have rb1: "rb1 = (new_descriptor N)\<lparr>buffer := Region m2, write_pos := T, commit_pos := T,
                       messages_written := 1, bytes_written := sz\<rparr>"
    by (simp add: rb1_def m2_def m1_def m0_def N_def T_def)
  have N0: "N \<noteq> 0" using TN by (metis not_less_zero unat_0)
  have v: "ring_buffer_validate (Some rb1)"
    using TltN N0 power_of_two_and[OF e]
    by (simp add: rb1 ring_buffer_validate_def new_descriptor_def N_def not_le)
  have flds: "buffer rb1 = Region m2" "size_rb rb1 = N" "read_pos rb1 = 0" "commit_pos rb1 = T"
    by (simp_all add: rb1 new_descriptor_def)
  have av: "ring_buffer_available_read (Some rb1) = T"
    by (simp add: ring_buffer_available_read_def flds)
  have a1: "\<not> T < sizeof_header" using T24 by (simp add: word_less_nat_alt sizeof_header_def)
  have h1: "sizeof_header \<le> N" using lt24 by (simp add: sizeof_header_def)
  have "take 24 m2 = header_bytes hdr" using rd_h by (simp add: mem_read_def)
  then have rh: "read_header rb1 0 = Some (header_bytes hdr)"
    using h1
    by (simp add: read_header_def flds safe_memcpy_def ptr_add_def sizeof_header_def
        mem_write_whole length_header_bytes)
  have hl: "(ucast (h_length hdr) :: 64 word) = sz"
    using ucast_length_back[OF mx] by (simp add: hdr_def)
  have hm: "h_magic hdr = ARROW_IPC_MAGIC" "h_checksum hdr = ring_buffer_crc32 p sz"
    by (simp_all add: hdr_def)
  have sum: "unat (24 + sz) = 24 + length p"
    using n2 usz by (simp add: unat_add_lem[THEN iffD1])
  have d1: "(24 :: 64 word) + sz \<le> N" using T24 TN by (simp add: word_le_nat_alt sum)
  have "take (length p) (drop 24 m2) = p" using rd_p by (simp add: mem_read_def)
  then have crc: "ring_buffer_crc32 (drop 24 m2) sz = ring_buffer_crc32 p sz"
    by (simp add: ring_buffer_crc32_def usz)
  show "ring_buffer_read (Some rb1) (Some msg) =
          (RING_BUFFER_SUCCESS,
           Some (rb1\<lparr>read_pos := total_message_size sz, messages_read := 1, bytes_read := sz\<rparr>),
           Some (msg\<lparr>data := Some 24, data_size := sz, header := hdr\<rparr>))"
    unfolding ring_buffer_read_def using v a1 mx d1
    by (simp add: av flds rh header_of_header_bytes Let_def hl hm T_def[symmetric] mask24 Tmask
        crc sizeof_header_def)
      (simp add: rb1 new_descriptor_def)
qed

text \<open>
  C1. In an arena that \<open>ring_buffer_create\<close> has just returned, with capacity \<open>N\<close>,
  for every payload \<open>p\<close> of 1 to 16 MiB bytes with \<open>align8 (24 + |p|) \<le> N - 1\<close>:
  \<open>ring_buffer_write\<close> returns success; the \<open>ring_buffer_read\<close> that follows returns
  success, the bytes its message designates are \<open>p\<close>, and its header has length
  \<open>|p|\<close>, the frame magic and the CRC-32 of \<open>p\<close> as checksum (what
  \<open>ring_buffer_crc32\<close> computes, which is the reference CRC-32); another
  \<open>ring_buffer_read\<close> returns \<open>RING_BUFFER_ERROR_EMPTY\<close>.
\<close>

theorem write_read_roundtrip:
  fixes p :: "u8 list"
  assumes cr: "ring_buffer_create env k = Some rb"
    and n1: "1 \<le> length p" and n2: "length p \<le> 16 * 1024 * 1024"
    and fit: "unat (total_message_size (of_nat (length p))) \<le> unat (size_rb rb) - 1"
  shows "\<exists>rb1 rb2 m.
     ring_buffer_write (Some rb) (Some p) (of_nat (length p)) now =
       (RING_BUFFER_SUCCESS, Some rb1) \<and>
     ring_buffer_read (Some rb1) (Some msg) = (RING_BUFFER_SUCCESS, Some rb2, Some m) \<and>
     msg_payload rb2 m = p \<and>
     h_length (header m) = of_nat (length p) \<and>
     h_magic (header m) = 0x41524157 \<and>
     h_checksum (header m) = ring_buffer_crc32 p (of_nat (length p)) \<and>
     h_checksum (header m) = crc32_reference p \<and>
     ring_buffer_read (Some rb2) (Some m) = (RING_BUFFER_ERROR_EMPTY, Some rb2, Some m)"
proof -
  define sz :: "64 word" where "sz = of_nat (length p)"
  define T where "T = total_message_size sz"
  have usz: "unat sz = length p"
  proof -
    have "length p < 2 ^ 64" using n2 by simp
    then show ?thesis by (simp add: sz_def unat_of_nat)
  qed
  have mx: "sz \<le> RING_BUFFER_MAX_MESSAGE_SIZE"
    using usz n2 by (simp add: RING_BUFFER_MAX_MESSAGE_SIZE_def word_le_nat_alt)
  have T24: "24 \<le> unat T" using total_message_size_bounds(1)[OF mx] by (simp add: T_def)
  then have pos: "0 < unat (size_rb rb)" and lt: "unat T < unat (size_rb rb)"
    using fit by (simp_all add: T_def sz_def)
  then have "size_rb rb \<noteq> 0" by (metis less_nat_zero_code unat_0)
  with create_fresh[OF cr] obtain e where e: "e < 64" "size_rb rb = 2 ^ e"
    and rb: "rb = new_descriptor (2 ^ e)" by metis
  have fit': "unat (total_message_size (of_nat (length p))) < unat (2 ^ e :: 64 word)"
    using lt by (simp add: T_def sz_def e(2))
  define hdr where "hdr = \<lparr>h_magic = ARROW_IPC_MAGIC, h_length = ucast sz, h_timestamp = now,
                    h_checksum = ring_buffer_crc32 p sz, h_reserved = 0\<rparr>"
  define m2 where "m2 = mem_write (mem_write (replicate (unat (2 ^ e :: 64 word)) 0) 0
                                  (header_bytes hdr)) 24 p"
  define rb1 where "rb1 = (new_descriptor (2 ^ e))
             \<lparr>buffer := Region m2, write_pos := T, commit_pos := T,
              messages_written := 1, bytes_written := sz\<rparr>"
  define rb2 where "rb2 = rb1\<lparr>read_pos := T, messages_read := 1, bytes_read := sz\<rparr>"
  define m where "m = msg\<lparr>data := Some 24, data_size := sz, header := hdr\<rparr>"
  have w: "ring_buffer_write (Some rb) (Some p) (of_nat (length p)) now =
       (RING_BUFFER_SUCCESS, Some rb1)"
    using fresh_write[OF e(1) n1 n2 fit', of now]
    by (simp add: rb rb1_def m2_def hdr_def sz_def T_def)
  have r: "ring_buffer_read (Some rb1) (Some msg) = (RING_BUFFER_SUCCESS, Some rb2, Some m)"
    using fresh_read(1)[OF e(1) n1 n2 fit', of now msg]
    by (simp add: rb1_def rb2_def m_def m2_def hdr_def sz_def T_def)
  have pl: "msg_payload rb2 m = p"
    using fresh_read(2)[OF e(1) n1 n2 fit', of now]
    by (simp add: msg_payload_def rb2_def rb1_def m_def usz[unfolded sz_def] m2_def hdr_def
        sz_def)
  have hl: "h_length (header m) = of_nat (length p)"
  proof -
    have "(ucast (of_nat (length p) :: 64 word) :: 32 word) = of_nat (length p)"
      by (rule bit_word_eqI) (auto simp: bit_simps)
    then show ?thesis by (simp add: m_def hdr_def sz_def)
  qed
  have hm: "h_magic (header m) = 0x41524157" by (simp add: m_def hdr_def ARROW_IPC_MAGIC_def)
  have hc: "h_checksum (header m) = ring_buffer_crc32 p (of_nat (length p))"
    by (simp add: m_def hdr_def sz_def)
  have "ring_buffer_crc32 p sz = crc32_reference p"
    by (simp add: ring_buffer_crc32_def crc32_reference_def crc32_fold_reference usz)
  then have hr: "h_checksum (header m) = crc32_reference p"
    by (simp add: m_def hdr_def)
  have TltN: "T < 2 ^ e" using lt by (simp add: word_less_nat_alt e(2))
  have N0: "(2 ^ e :: 64 word) \<noteq> 0" using pos e(2) by (metis less_nat_zero_code unat_0)
  have v2: "ring_buffer_validate (Some rb2)"
    using TltN N0 power_of_two_and[OF e(1)]
    by (simp add: rb2_def rb1_def ring_buffer_validate_def new_descriptor_def not_le
        RING_BUFFER_MAGIC_def)
  have "ring_buffer_available_read (Some rb2) = 0"
    by (simp add: ring_buffer_available_read_def rb2_def rb1_def)
  then have r2: "ring_buffer_read (Some rb2) (Some m) = (RING_BUFFER_ERROR_EMPTY, Some rb2, Some m)"
    using v2 by (simp add: ring_buffer_read_def sizeof_header_def)
  from w r pl hl hm hc hr r2 show ?thesis by blast
qed

theorem write_read_roundtrip_witness:
  "ring_buffer_create \<lparr>calloc_ok = True, mmap_ok = True, malloc_ok = True\<rparr> (1024 * 1024) =
     Some (new_descriptor 1048576) \<and>
   (\<exists>rb1 rb2 m.
     ring_buffer_write (Some (new_descriptor 1048576))
       (Some [0x48, 0x65, 0x6C, 0x6C, 0x6F, 0x2C, 0x20, 0x57, 0x6F, 0x72, 0x6C, 0x64, 0x21]) 13 0 =
       (RING_BUFFER_SUCCESS, Some rb1) \<and>
     ring_buffer_read (Some rb1) (Some blank_message) = (RING_BUFFER_SUCCESS, Some rb2, Some m) \<and>
     msg_payload rb2 m =
       [0x48, 0x65, 0x6C, 0x6C, 0x6F, 0x2C, 0x20, 0x57, 0x6F, 0x72, 0x6C, 0x64, 0x21] \<and>
     h_length (header m) = 13 \<and>
     h_magic (header m) = 0x41524157 \<and>
     h_checksum (header m) =
       ring_buffer_crc32
         [0x48, 0x65, 0x6C, 0x6C, 0x6F, 0x2C, 0x20, 0x57, 0x6F, 0x72, 0x6C, 0x64, 0x21] 13 \<and>
     h_checksum (header m) =
       crc32_reference
         [0x48, 0x65, 0x6C, 0x6C, 0x6F, 0x2C, 0x20, 0x57, 0x6F, 0x72, 0x6C, 0x64, 0x21] \<and>
     ring_buffer_read (Some rb2) (Some m) = (RING_BUFFER_ERROR_EMPTY, Some rb2, Some m))"
proof -
  have c: "ring_buffer_create \<lparr>calloc_ok = True, mmap_ok = True, malloc_ok = True\<rparr> (1024 * 1024) =
     Some (new_descriptor 1048576)"
    by (simp add: ring_buffer_create_def ring_buffer_next_power_of_2_def)
  have f: "unat (total_message_size (of_nat (length
      [0x48, 0x65, 0x6C, 0x6C, 0x6F, 0x2C, 0x20, 0x57, 0x6F, 0x72, 0x6C, 0x64, 0x21 :: u8])))
      \<le> unat (size_rb (new_descriptor 1048576)) - 1"
    by (simp add: total_message_size_def align_size_def sizeof_header_def MESSAGE_ALIGNMENT_def
        new_descriptor_def)
  show ?thesis
    using write_read_roundtrip [OF c _ _ f, of 0 blank_message] c by simp
qed

subsection \<open>Destruction\<close>




subsection \<open>Two producers\<close>

text \<open>A producer that runs alone does what \<open>ring_buffer_write\<close> does.\<close>

lemma producer_alone:
  "run [0, 0, 0] (rb, [Ready bytes sz now]) =
     (case ring_buffer_write (Some rb) (Some bytes) sz now of
        (e, h) \<Rightarrow> (the h, [Returned e]))"
  by (auto simp: run_def step_def ring_buffer_write_def split: sum.splits prod.splits bool.splits)


lemma write_reserve_ok:
  assumes v: "ring_buffer_validate (Some rb)" and mx: "sz \<le> RING_BUFFER_MAX_MESSAGE_SIZE"
    and N: "size_rb rb = 2 ^ e" and e53: "e \<le> 53"
    and thr: "backpressure_threshold rb = RING_BUFFER_BACKPRESSURE_THRESHOLD"
    and low: "5 * unat (utilization_used rb) < 4 * 2 ^ e"
    and room: "total_message_size sz \<le> ring_buffer_available_write (Some rb)"
  shows "write_reserve rb sz =
           Inr (rb\<lparr>backpressure := False,
                    write_pos := (write_pos rb + total_message_size sz) AND (size_rb rb - 1)\<rparr>,
                write_pos rb,
                (write_pos rb + total_message_size sz) AND (size_rb rb - 1))"
proof -
  have "\<not> double_ge (ring_buffer_utilization (Some rb)) (backpressure_threshold rb)"
    using utilization_test[OF v N e53] low by (simp add: thr)
  moreover have "\<not> ring_buffer_available_write (Some (rb\<lparr>backpressure := False\<rparr>))
                    < total_message_size sz"
    using room by (auto simp: ring_buffer_available_write_def not_less split: if_splits)
  ultimately show ?thesis using v mx by (simp add: write_reserve_def Let_def)
qed


text \<open>
  C3 fails on the code. Producers 0 and 1 write one byte each to a fresh arena of 128
  bytes. Producer 0 reserves bytes 0 to 31, producer 1 reserves bytes 32 to 63 and
  copies its frame. At that point \<open>commit_pos\<close> is 0, not the snapshot 32 of producer
  1, and producer 1 commits all the same: \<open>commit_pos\<close> becomes 64 while producer 0 has
  not written a byte of its frame, 64 bytes are reported readable, and a read returns
  \<open>RING_BUFFER_ERROR_CORRUPTED\<close> on the empty frame. When producer 0 then copies and
  commits, \<open>commit_pos\<close> goes back to 32, behind the frame of producer 1.
\<close>

theorem commit_exposes_unwritten_frame:
  "(case run [0, 1, 1] (new_descriptor 128, [Ready [0x41] 1 0, Ready [0x42] 1 0]) of
      (rb, ps) \<Rightarrow>
        ps = [Reserved [0x41] 1 0 0 32, Copied 64 1] \<and> commit_pos rb = 0) \<and>
   (case run [0, 1, 1, 1] (new_descriptor 128, [Ready [0x41] 1 0, Ready [0x42] 1 0]) of
      (rb, ps) \<Rightarrow>
        ps = [Reserved [0x41] 1 0 0 32, Returned RING_BUFFER_SUCCESS] \<and>
        read_pos rb = 0 \<and> commit_pos rb = 64 \<and>
        ring_buffer_available_read (Some rb) = 64 \<and>
        fst (ring_buffer_read (Some rb) (Some blank_message)) = RING_BUFFER_ERROR_CORRUPTED) \<and>
   (case run [0, 1, 1, 1, 0, 0] (new_descriptor 128, [Ready [0x41] 1 0, Ready [0x42] 1 0]) of
      (rb, ps) \<Rightarrow>
        ps = [Returned RING_BUFFER_SUCCESS, Returned RING_BUFFER_SUCCESS] \<and>
        write_pos rb = 64 \<and> commit_pos rb = 32 \<and> messages_written rb = 2)"
proof -
  define nd where "nd = new_descriptor 128"
  define z :: "u8 list" where "z = replicate 128 0"
  have N: "(128 :: 64 word) = 2 ^ 7" by simp
  have tms: "total_message_size 1 = 32"
    by (simp add: total_message_size_def align_size_def sizeof_header_def MESSAGE_ALIGNMENT_def)
  have mx: "(1 :: 64 word) \<le> RING_BUFFER_MAX_MESSAGE_SIZE"
    by (simp add: RING_BUFFER_MAX_MESSAGE_SIZE_def)
  \<comment> \<open>producer 0 reserves\<close>
  have v0: "ring_buffer_validate (Some nd)"
    by (simp add: nd_def ring_buffer_validate_def new_descriptor_def RING_BUFFER_MAGIC_def)
  define rb1 where "rb1 = nd\<lparr>backpressure := False, write_pos := 32\<rparr>"
  have r0: "write_reserve nd 1 = Inr (rb1, 0, 32)"
    using write_reserve_ok[OF v0 mx, of 7]
    by (simp add: nd_def new_descriptor_def utilization_used_def tms
        ring_buffer_available_write_def rb1_def)
  \<comment> \<open>producer 1 reserves\<close>
  have v1: "ring_buffer_validate (Some rb1)"
    by (simp add: rb1_def nd_def ring_buffer_validate_def new_descriptor_def RING_BUFFER_MAGIC_def)
  define rb2 where "rb2 = rb1\<lparr>backpressure := False, write_pos := 64\<rparr>"
  have r1: "write_reserve rb1 1 = Inr (rb2, 32, 64)"
    using write_reserve_ok[OF v1 mx, of 7]
    by (simp add: rb1_def nd_def new_descriptor_def utilization_used_def tms
        ring_buffer_available_write_def rb2_def)
  \<comment> \<open>producer 1 copies its frame\<close>
  define hb1 where "hb1 = header_bytes \<lparr>h_magic = ARROW_IPC_MAGIC, h_length = 1,
      h_timestamp = 0, h_checksum = ring_buffer_crc32 [0x42] 1, h_reserved = 0\<rparr>"
  have lh1: "length hb1 = 24" by (simp add: hb1_def length_header_bytes)
  define m1 where "m1 = mem_write (mem_write z 32 hb1) 56 [0x42]"
  define rb3 where "rb3 = rb2\<lparr>buffer := Region m1\<rparr>"
  have b2: "buffer rb2 = Region z" "size_rb rb2 = 128"
    by (simp_all add: rb2_def rb1_def nd_def new_descriptor_def z_def)
  have c1: "arena_copy_in rb2 32 (Some hb1) 24 =
              (True, rb2\<lparr>buffer := Region (mem_write z 32 hb1)\<rparr>)"
    using arena_copy_in_fit[OF b2(1), of 32 24 hb1]
    by (simp add: b2 lh1)
  have c2: "arena_copy_in (rb2\<lparr>buffer := Region (mem_write z 32 hb1)\<rparr>) 56 (Some [0x42]) 1 =
              (True, rb3)"
    using arena_copy_in_fit[of "rb2\<lparr>buffer := Region (mem_write z 32 hb1)\<rparr>"
        "mem_write z 32 hb1" 56 1 "[0x42]"]
    by (simp add: b2 rb3_def m1_def)
  have f1: "write_frame rb2 32 [0x42] 1 0 = (True, rb3)"
    by (simp add: write_frame_def Let_def sizeof_header_def hb1_def[symmetric] c1 b2 c2)
  \<comment> \<open>producer 1 commits\<close>
  define rb4 where "rb4 = write_commit rb3 64 1"
  have run1: "run [0, 1, 1, 1] (nd, [Ready [0x41] 1 0, Ready [0x42] 1 0]) =
                (rb4, [Reserved [0x41] 1 0 0 32, Returned RING_BUFFER_SUCCESS])"
    by (simp add: run_def step_def r0 r1 f1 rb4_def)
  have run0: "run [0, 1, 1] (nd, [Ready [0x41] 1 0, Ready [0x42] 1 0]) =
                (rb3, [Reserved [0x41] 1 0 0 32, Copied 64 1])"
    by (simp add: run_def step_def r0 r1 f1)
  have c3': "commit_pos rb3 = 0"
    by (simp add: rb3_def rb2_def rb1_def nd_def new_descriptor_def)
  have flds: "buffer rb4 = Region m1" "size_rb rb4 = 128" "read_pos rb4 = 0" "commit_pos rb4 = 64"
    "write_pos rb4 = 64" "magic rb4 = RING_BUFFER_MAGIC" "messages_written rb4 = 1"
    by (simp_all add: rb4_def write_commit_def rb3_def rb2_def rb1_def nd_def new_descriptor_def)
  have v4: "ring_buffer_validate (Some rb4)"
    by (simp add: ring_buffer_validate_def flds)
  have av: "ring_buffer_available_read (Some rb4) = 64"
    by (simp add: ring_buffer_available_read_def flds)
  have lz: "length z = 128" by (simp add: z_def)
  have "mem_read m1 0 24 = mem_read (mem_write z 32 hb1) 0 24"
    unfolding m1_def by (rule mem_read_write_before) (simp_all add: length_mem_write lz)
  also have "\<dots> = mem_read z 0 24" by (rule mem_read_write_before) (simp_all add: lz)
  also have "\<dots> = replicate 24 0" by (simp add: mem_read_def z_def)
  finally have "take 24 m1 = replicate 24 0" by (simp add: mem_read_def)
  then have rh: "read_header rb4 0 = Some (replicate 24 0)"
    by (simp add: read_header_def flds safe_memcpy_def ptr_add_def sizeof_header_def
        mem_write_whole)
  have "h_magic (header_of_bytes (replicate 24 0)) = 0"
    by (simp add: header_of_bytes_def mem_read_def le_word_zeros)
  then have rd: "fst (ring_buffer_read (Some rb4) (Some blank_message)) = RING_BUFFER_ERROR_CORRUPTED"
    using v4 by (simp add: ring_buffer_read_def av flds rh Let_def sizeof_header_def
        ARROW_IPC_MAGIC_def)
  \<comment> \<open>producer 0 copies and commits\<close>
  define hb0 where "hb0 = header_bytes \<lparr>h_magic = ARROW_IPC_MAGIC, h_length = 1,
      h_timestamp = 0, h_checksum = ring_buffer_crc32 [0x41] 1, h_reserved = 0\<rparr>"
  have lh0: "length hb0 = 24" by (simp add: hb0_def length_header_bytes)
  define rb5 where "rb5 = rb4\<lparr>buffer := Region (mem_write (mem_write m1 0 hb0) 24 [0x41])\<rparr>"
  have c3: "arena_copy_in rb4 0 (Some hb0) 24 =
              (True, rb4\<lparr>buffer := Region (mem_write m1 0 hb0)\<rparr>)"
    using arena_copy_in_fit[OF flds(1), of 0 24 hb0] by (simp add: flds lh0)
  have c4: "arena_copy_in (rb4\<lparr>buffer := Region (mem_write m1 0 hb0)\<rparr>) 24 (Some [0x41]) 1 =
              (True, rb5)"
    using arena_copy_in_fit[of "rb4\<lparr>buffer := Region (mem_write m1 0 hb0)\<rparr>"
        "mem_write m1 0 hb0" 24 1 "[0x41]"]
    by (simp add: flds rb5_def)
  have f0: "write_frame rb4 0 [0x41] 1 0 = (True, rb5)"
    by (simp add: write_frame_def Let_def sizeof_header_def hb0_def[symmetric] c3 flds c4)
  have run2: "run [0, 1, 1, 1, 0, 0] (nd, [Ready [0x41] 1 0, Ready [0x42] 1 0]) =
                (write_commit rb5 32 1, [Returned RING_BUFFER_SUCCESS, Returned RING_BUFFER_SUCCESS])"
    by (simp add: run_def step_def r0 r1 f1 rb4_def[symmetric] f0)
  show ?thesis
    unfolding nd_def[symmetric] run0 run1 run2
    by (simp add: rd av flds write_commit_def rb5_def c3')
qed

end
